theory Spec2Isabelle
  imports Main "HOL-Library.AList" "HOL-Library.Char_ord" "HOL-Library.List_Lexorder"
begin

section \<open>The target document: Go's \<open>Node = map[string]any\<close>\<close>

text \<open>
  \<^verbatim>\<open>type Node map[string]any\<close>. The dynamic values the converter stores under a key are
  strings, ints, bools, nested nodes and slices of nodes. A map is kept as an association
  list in the order the source writes its keys; a key is read with \<open>map_of\<close> and assigned
  with \<open>AList.update\<close>.

  A value of type \<^verbatim>\<open>[]Node\<close> is either the nil slice, \<open>ANilNodes\<close>, or a slice with a
  backing array, \<open>ANodes ns\<close>. The two differ even when \<open>ns\<close> is empty: \<open>ANodes []\<close> is
  \<^verbatim>\<open>[]Node{}\<close>, which \<^verbatim>\<open>encoding/json\<close> writes as \<^verbatim>\<open>[]\<close>, and \<open>ANilNodes\<close> is
  \<^verbatim>\<open>[]Node(nil)\<close>, which it writes as \<^verbatim>\<open>null\<close>.
\<close>

datatype any =
    AString string
  | AInt int
  | ABool bool
  | ANode "(string \<times> any) list"
  | ANilNodes
  | ANodes "(string \<times> any) list list"

type_synonym Node = "(string \<times> any) list"

text \<open>
  The converter's functions build their results in a variable declared
  \<^verbatim>\<open>var nodes []Node\<close>, which starts as the nil slice, and grow it with \<^verbatim>\<open>append\<close>.
  \<^verbatim>\<open>append\<close> gives back the nil slice when nothing is added to it, and a slice with a backing
  array as soon as one element is added; \<open>mergeTextNodes\<close> returns a slice of at most one
  element as it is. Below such a result is the list of its elements, and \<open>grown\<close> is the
  value that is stored when the result is put under a key: the nil slice for no elements.
\<close>

definition grown :: "Node list \<Rightarrow> any" where
  "grown nodes = (if nodes = [] then ANilNodes else ANodes nodes)"

definition elems :: "any \<Rightarrow> Node list" where
  \<comment> \<open>the elements a \<^verbatim>\<open>range\<close> over a stored slice visits; the nil slice has none\<close>
  "elems v = (case v of ANodes ns \<Rightarrow> ns | _ \<Rightarrow> [])"

text \<open>A failed type assertion \<^verbatim>\<open>x.(string)\<close> panics.\<close>

datatype panic = TypeAssertion

subsection \<open>\<open>fmt.Sprint\<close> on nodes\<close>

text \<open>
  \<open>marksEqual\<close> compares marks through \<^verbatim>\<open>fmt.Sprint\<close>. Go prints a map as
  \<^verbatim>\<open>map[k1:v1 k2:v2]\<close> with the keys sorted, a slice as \<^verbatim>\<open>[e1 e2]\<close>, a string as it is,
  an int in decimal and a bool as \<^verbatim>\<open>true\<close> or \<^verbatim>\<open>false\<close>.
\<close>

fun digits :: "nat \<Rightarrow> string" where
  "digits n =
     (if n < 10 then [char_of (48 + n)] else digits (n div 10) @ [char_of (48 + n mod 10)])"

declare digits.simps [simp del]

primrec join :: "string \<Rightarrow> string list \<Rightarrow> string" where
  "join sep [] = []"
| "join sep (x # xs) = (if xs = [] then x else x @ sep @ join sep xs)"

definition printMap :: "(string \<times> string) list \<Rightarrow> string" where
  "printMap kvs = ''map['' @ join '' '' (map (\<lambda>(k, s). k @ '':'' @ s) (sort_key fst kvs)) @ '']''"

primrec Sprint :: "any \<Rightarrow> string" where
  "Sprint (AString s) = s"
| "Sprint (AInt i) = (if i < 0 then CHR ''-'' # digits (nat (- i)) else digits (nat i))"
| "Sprint (ABool b) = (if b then ''true'' else ''false'')"
| "Sprint (ANode kvs) = printMap (map (map_prod id Sprint) kvs)"
| "Sprint ANilNodes = ''[]''"
| "Sprint (ANodes ns) =
     ''['' @ join '' '' (map printMap (map (map (map_prod id Sprint)) ns)) @ '']''"

subsection \<open>Reading a node\<close>

definition isType :: "string \<Rightarrow> Node \<Rightarrow> bool" where
  \<comment> \<open>\<^verbatim>\<open>n["type"] == t\<close>\<close>
  "isType t n = (map_of n ''type'' = Some (AString t))"

definition textOf :: "Node \<Rightarrow> string option" where
  \<comment> \<open>\<^verbatim>\<open>n["text"].(string)\<close>; None is the panic of the assertion\<close>
  "textOf n = (case map_of n ''text'' of Some (AString s) \<Rightarrow> Some s | _ \<Rightarrow> None)"

definition marksOf :: "Node \<Rightarrow> Node list option" where
  \<comment> \<open>\<^verbatim>\<open>n["marks"].([]Node)\<close> with its ok flag\<close>
  "marksOf n =
     (case map_of n ''marks'' of
        Some (ANodes ms) \<Rightarrow> Some ms
      | Some ANilNodes \<Rightarrow> Some []
      | _ \<Rightarrow> None)"

section \<open>The run merger\<close>

text \<open>
  \<^verbatim>\<open>
  func marksEqual(a, b Node) bool {
      aMarks, aOk := a["marks"].([]Node)
      bMarks, bOk := b["marks"].([]Node)
      if !aOk && !bOk { return true }
      if !aOk || !bOk || len(aMarks) != len(bMarks) { return false }
      for i := range aMarks {
          if fmt.Sprint(aMarks[i]) != fmt.Sprint(bMarks[i]) { return false }
      }
      return true
  }
  \<close>
\<close>

fun sameSprint :: "Node list \<Rightarrow> Node list \<Rightarrow> bool" where
  "sameSprint (x # xs) (y # ys) =
     (if Sprint (ANode x) \<noteq> Sprint (ANode y) then False else sameSprint xs ys)"
| "sameSprint _ _ = True"

definition marksEqual :: "Node \<Rightarrow> Node \<Rightarrow> bool" where
  "marksEqual a b =
     (case marksOf a of
        None \<Rightarrow> (case marksOf b of None \<Rightarrow> True | Some bMarks \<Rightarrow> False)
      | Some aMarks \<Rightarrow>
          (case marksOf b of
             None \<Rightarrow> False
           | Some bMarks \<Rightarrow>
               if length aMarks \<noteq> length bMarks then False else sameSprint aMarks bMarks))"

text \<open>
  \<^verbatim>\<open>
  func mergeTextNodes(nodes []Node) []Node {
      if len(nodes) <= 1 { return nodes }
      merged := []Node{nodes[0]}
      for _, node := range nodes[1:] {
          prev := merged[len(merged)-1]
          if prev["type"] == "text" && node["type"] == "text" && marksEqual(prev, node) {
              prev["text"] = prev["text"].(string) + node["text"].(string)
              continue
          }
          merged = append(merged, node)
      }
      return merged
  }
  \<close>
  \<open>prev\<close> is the map held in the last slot of \<open>merged\<close>, so the assignment to its
  \<^verbatim>\<open>"text"\<close> key rewrites that slot. The converter allocates every leaf it appends, so no
  map occurs twice in \<open>nodes\<close>.
\<close>

definition mergeable :: "Node \<Rightarrow> Node \<Rightarrow> bool" where
  "mergeable prev node = (isType ''text'' prev \<and> isType ''text'' node \<and> marksEqual prev node)"

fun mergeLoop :: "Node list \<Rightarrow> Node list \<Rightarrow> panic + Node list" where
  "mergeLoop merged [] = Inr merged"
| "mergeLoop merged (node # rest) =
     (let prev = last merged in
      if mergeable prev node then
        (case textOf prev of
           None \<Rightarrow> Inl TypeAssertion
         | Some s \<Rightarrow>
             (case textOf node of
                None \<Rightarrow> Inl TypeAssertion
              | Some t \<Rightarrow>
                  mergeLoop
                    (merged[length merged - 1 := AList.update ''text'' (AString (s @ t)) prev])
                    rest))
      else mergeLoop (merged @ [node]) rest)"

fun mergeTextNodes :: "Node list \<Rightarrow> panic + Node list" where
  "mergeTextNodes [] = Inr []"
| "mergeTextNodes [n] = Inr [n]"
| "mergeTextNodes (n # node # rest) = mergeLoop [n] (node # rest)"

text \<open>A sequence in which no two neighbours would be merged.\<close>

fun adjacentFree :: "Node list \<Rightarrow> bool" where
  "adjacentFree (x # y # ys) = (if mergeable x y then False else adjacentFree (y # ys))"
| "adjacentFree _ = True"

text \<open>A leaf of type \<open>text\<close> holds a string under \<^verbatim>\<open>"text"\<close>.\<close>

definition textHasString :: "Node \<Rightarrow> bool" where
  "textHasString n = (if isType ''text'' n then textOf n \<noteq> None else True)"

section \<open>The source tree: goldmark's AST\<close>

text \<open>
  The parser is not part of the converter. A node is its kind, with the data the converter
  reads from it, and its children in order. The byte slices the code cuts out of the source
  buffer (\<^verbatim>\<open>Segment.Value(source)\<close>, \<^verbatim>\<open>Text(source)\<close>, \<^verbatim>\<open>URL(source)\<close>,
  \<^verbatim>\<open>Language(source)\<close>, the values of \<^verbatim>\<open>Lines()\<close>) are held by the node, so the
  \<open>source\<close> parameter disappears. \<open>KOther\<close> stands for every kind the converter does
  not name, with the \<^verbatim>\<open>Type()\<close> it reports.
\<close>

datatype nodeType = TypeDocument | TypeBlock | TypeInline

datatype autoLinkType = AutoLinkEmail | AutoLinkURL

datatype kind =
    KDocument
  | KParagraph
  | KTextBlock
  | KHeading int
  | KList bool
  | KListItem
  | KFencedCodeBlock "string list" string
  | KCodeBlock "string list"
  | KBlockquote
  | KThematicBreak
  | KTable
  | KTableHeader
  | KTableRow
  | KTableCell
  | KText string bool bool
  | KEmphasis int
  | KCodeSpan string
  | KLink string
  | KAutoLink autoLinkType string
  | KImage string string
  | KStrikethrough
  | KRawHTML
  | KOther nodeType

datatype ast = Ast (kindOf: kind) (childrenOf: "ast list")

text \<open>
  The fields, in order: \<open>KHeading Level\<close>, \<open>KList IsOrdered()\<close>,
  \<open>KFencedCodeBlock lines Language(source)\<close>, \<open>KCodeBlock lines\<close>,
  \<open>KText Segment.Value(source) SoftLineBreak() HardLineBreak()\<close>, \<open>KEmphasis Level\<close>,
  \<open>KCodeSpan Text(source)\<close>, \<open>KLink Destination\<close>, \<open>KAutoLink AutoLinkType URL(source)\<close>,
  \<open>KImage Text(source) Destination\<close>.
\<close>

fun Type :: "kind \<Rightarrow> nodeType" where
  "Type KDocument = TypeDocument"
| "Type (KText text soft hard) = TypeInline"
| "Type (KEmphasis level) = TypeInline"
| "Type (KCodeSpan text) = TypeInline"
| "Type (KLink destination) = TypeInline"
| "Type (KAutoLink t url) = TypeInline"
| "Type (KImage text destination) = TypeInline"
| "Type KStrikethrough = TypeInline"
| "Type KRawHTML = TypeInline"
| "Type (KOther t) = t"
| "Type _ = TypeBlock"

section \<open>The inline converter\<close>

definition textNode :: "string \<Rightarrow> Node" where
  \<comment> \<open>\<^verbatim>\<open>Node{"type": "text", "text": text}\<close>\<close>
  "textNode text = [(''type'', AString ''text''), (''text'', AString text)]"

definition simpleMark :: "string \<Rightarrow> Node" where
  \<comment> \<open>\<^verbatim>\<open>Node{"type": markType}\<close>\<close>
  "simpleMark markType = [(''type'', AString markType)]"

definition linkMark :: "string \<Rightarrow> Node" where
  \<comment> \<open>\<^verbatim>\<open>Node{"type": "link", "attrs": Node{"href": destination}}\<close>\<close>
  "linkMark destination =
     [(''type'', AString ''link''), (''attrs'', ANode [(''href'', AString destination)])]"

definition hardBreak :: Node where
  "hardBreak = [(''type'', AString ''hardBreak'')]"

definition inlineCard :: "string \<Rightarrow> Node" where
  "inlineCard url = [(''type'', AString ''inlineCard''), (''attrs'', ANode [(''url'', AString url)])]"

definition copyMarks :: "Node list \<Rightarrow> Node list" where
  \<comment> \<open>a fresh slice with the same elements; nil for nil\<close>
  "copyMarks marks = (if marks = [] then [] else marks)"

definition appendP :: "panic + 'a list \<Rightarrow> panic + 'a list \<Rightarrow> panic + 'a list" where
  \<comment> \<open>\<^verbatim>\<open>nodes = append(nodes, xs...)\<close> where either side may have panicked\<close>
  "appendP a b =
     (case a of Inl e \<Rightarrow> Inl e
      | Inr xs \<Rightarrow> (case b of Inl e \<Rightarrow> Inl e | Inr ys \<Rightarrow> Inr (xs @ ys)))"

definition thenMerge :: "panic + Node list \<Rightarrow> panic + Node list" where
  \<comment> \<open>\<^verbatim>\<open>return mergeTextNodes(nodes)\<close>\<close>
  "thenMerge r = (case r of Inl e \<Rightarrow> Inl e | Inr nodes \<Rightarrow> mergeTextNodes nodes)"

text \<open>
  \<open>convertInlineChildren children marks\<close> is \<^verbatim>\<open>convertInlineChildren(n, source, marks)\<close>
  for a node \<open>n\<close> with these children. \<open>inlineLoop\<close> is its \<^verbatim>\<open>for\<close> loop: the leaves
  appended for the first child, followed by those appended for the later ones. The cases
  stand in the order of the source's type switch; the last equation is its \<^verbatim>\<open>default\<close>.
\<close>

fun convertInlineChildren :: "ast list \<Rightarrow> Node list \<Rightarrow> panic + Node list"
  and inlineLoop :: "ast list \<Rightarrow> Node list \<Rightarrow> panic + Node list" where
  "convertInlineChildren children marks = thenMerge (inlineLoop children marks)"
| "inlineLoop [] marks = Inr []"
| "inlineLoop (Ast (KText text soft hard) cs # rest) marks =
     appendP
       (Inr (if text = [] then []
             else (if length marks > 0
                   then AList.update ''marks'' (ANodes (copyMarks marks)) (textNode text)
                   else textNode text)
                  # (if hard then [hardBreak] else if soft then [textNode '' ''] else [])))
       (inlineLoop rest marks)"
| "inlineLoop (Ast (KEmphasis level) cs # rest) marks =
     appendP
       (convertInlineChildren cs
          (copyMarks marks @ [simpleMark (if level = 2 then ''strong'' else ''em'')]))
       (inlineLoop rest marks)"
| "inlineLoop (Ast (KCodeSpan text) cs # rest) marks =
     appendP
       (Inr [AList.update ''marks'' (ANodes (copyMarks marks @ [simpleMark ''code'']))
               (textNode text)])
       (inlineLoop rest marks)"
| "inlineLoop (Ast (KLink destination) cs # rest) marks =
     appendP
       (convertInlineChildren cs (copyMarks marks @ [linkMark destination]))
       (inlineLoop rest marks)"
| "inlineLoop (Ast (KAutoLink t url) cs # rest) marks =
     appendP (Inr [inlineCard url]) (inlineLoop rest marks)"
| "inlineLoop (Ast (KImage text destination) cs # rest) marks =
     appendP
       (Inr [[(''type'', AString ''text''),
              (''text'', AString (if text = [] then destination else text)),
              (''marks'', ANodes (copyMarks marks @ [linkMark destination]))]])
       (inlineLoop rest marks)"
| "inlineLoop (Ast KStrikethrough cs # rest) marks =
     appendP
       (convertInlineChildren cs (copyMarks marks @ [simpleMark ''strike'']))
       (inlineLoop rest marks)"
| "inlineLoop (Ast KRawHTML cs # rest) marks = inlineLoop rest marks"
| "inlineLoop (Ast k cs # rest) marks =
     appendP
       (if cs \<noteq> [] then convertInlineChildren cs marks else Inr [])
       (inlineLoop rest marks)"

section \<open>The table converter\<close>

text \<open>
  \<^verbatim>\<open>
  inlineContent := convertInlineChildren(child, source, nil)
  var content []Node
  if len(inlineContent) > 0 {
      content = []Node{{"type": "paragraph", "content": inlineContent}}
  } else {
      content = []Node{{"type": "paragraph", "content": []Node{}}}
  }
  cells = append(cells, Node{"type": cellType, "content": content})
  \<close>
  The first branch stores the slice the inline converter returned, the second the literal
  \<^verbatim>\<open>[]Node{}\<close>, which is not the nil slice that \<open>inlineContent\<close> is there.
\<close>

definition tableCell :: "string \<Rightarrow> Node list \<Rightarrow> Node" where
  \<comment> \<open>the body of the loop of \<open>convertTableCells\<close> once the inline content is known\<close>
  "tableCell cellType inlineContent =
     [(''type'', AString cellType),
      (''content'', ANodes
         (if length inlineContent > 0
          then [[(''type'', AString ''paragraph''), (''content'', grown inlineContent)]]
          else [[(''type'', AString ''paragraph''), (''content'', ANodes [])]]))]"

fun convertTableCells :: "ast list \<Rightarrow> string \<Rightarrow> panic + Node list" where
  "convertTableCells [] cellType = Inr []"
| "convertTableCells (Ast KTableCell cs # rest) cellType =
     appendP
       (case convertInlineChildren cs [] of
          Inl e \<Rightarrow> Inl e
        | Inr inlineContent \<Rightarrow> Inr [tableCell cellType inlineContent])
       (convertTableCells rest cellType)"
| "convertTableCells (Ast k cs # rest) cellType = convertTableCells rest cellType"

definition tableRow :: "panic + Node list \<Rightarrow> panic + Node list" where
  "tableRow r =
     (case r of
        Inl e \<Rightarrow> Inl e
      | Inr cells \<Rightarrow> Inr [[(''type'', AString ''tableRow''), (''content'', grown cells)]])"

fun tableRows :: "ast list \<Rightarrow> panic + Node list" where
  "tableRows [] = Inr []"
| "tableRows (Ast KTableHeader cs # rest) =
     appendP (tableRow (convertTableCells cs ''tableHeader'')) (tableRows rest)"
| "tableRows (Ast KTableRow cs # rest) =
     appendP (tableRow (convertTableCells cs ''tableCell'')) (tableRows rest)"
| "tableRows (Ast k cs # rest) = tableRows rest"

definition convertTable :: "ast list \<Rightarrow> panic + Node" where
  "convertTable children =
     (case tableRows children of
        Inl e \<Rightarrow> Inl e
      | Inr rows \<Rightarrow>
          Inr [(''type'', AString ''table''),
               (''attrs'', ANode [(''isNumberColumnEnabled'', ABool False),
                                  (''layout'', AString ''default'')]),
               (''content'', grown rows)])"

section \<open>The block converter\<close>

definition trimNewline :: "string \<Rightarrow> string" where
  \<comment> \<open>\<^verbatim>\<open>if len(code) > 0 && code[len(code)-1] == '\n' { code = code[:len(code)-1] }\<close>\<close>
  "trimNewline code =
     (if length code > 0 \<and> last code = CHR 0x0A then butlast code else code)"

definition codeBlock :: "string list \<Rightarrow> Node" where
  "codeBlock lines =
     [(''type'', AString ''codeBlock''),
      (''content'', ANodes [textNode (trimNewline (concat lines))])]"

definition paragraphNode :: "panic + Node list \<Rightarrow> panic + Node option" where
  "paragraphNode r =
     (case r of
        Inl e \<Rightarrow> Inl e
      | Inr content \<Rightarrow>
          if length content = 0 then Inr None
          else Inr (Some [(''type'', AString ''paragraph''), (''content'', grown content)]))"

text \<open>
  \<open>convertChildren\<close> and \<open>convertListItems\<close> take the children of their node. A dropped
  child (\<^verbatim>\<open>nil\<close>) is \<open>None\<close>.
\<close>

fun convertNode :: "ast \<Rightarrow> panic + Node option"
  and convertChildren :: "ast list \<Rightarrow> panic + Node list"
  and convertListItems :: "ast list \<Rightarrow> panic + Node list" where
  "convertChildren [] = Inr []"
| "convertChildren (child # rest) =
     appendP
       (case convertNode child of
          Inl e \<Rightarrow> Inl e
        | Inr r \<Rightarrow> Inr (case r of None \<Rightarrow> [] | Some node \<Rightarrow> [node]))
       (convertChildren rest)"
| "convertListItems [] = Inr []"
| "convertListItems (Ast KListItem cs # rest) =
     appendP
       (case convertChildren cs of
          Inl e \<Rightarrow> Inl e
        | Inr content \<Rightarrow> Inr [[(''type'', AString ''listItem''), (''content'', grown content)]])
       (convertListItems rest)"
| "convertListItems (Ast k cs # rest) = convertListItems rest"
| "convertNode (Ast KParagraph cs) = paragraphNode (convertInlineChildren cs [])"
| "convertNode (Ast KTextBlock cs) = paragraphNode (convertInlineChildren cs [])"
| "convertNode (Ast (KHeading level) cs) =
     (case convertInlineChildren cs [] of
        Inl e \<Rightarrow> Inl e
      | Inr content \<Rightarrow>
          Inr (Some [(''type'', AString ''heading''),
                     (''attrs'', ANode [(''level'', AInt level)]),
                     (''content'', grown content)]))"
| "convertNode (Ast (KList ordered) cs) =
     (case convertListItems cs of
        Inl e \<Rightarrow> Inl e
      | Inr items \<Rightarrow>
          Inr (Some [(''type'', AString (if ordered then ''orderedList'' else ''bulletList'')),
                     (''content'', grown items)]))"
| "convertNode (Ast (KFencedCodeBlock lines language) cs) =
     Inr (Some (if language \<noteq> []
                then AList.update ''attrs'' (ANode [(''language'', AString language)])
                       (codeBlock lines)
                else codeBlock lines))"
| "convertNode (Ast (KCodeBlock lines) cs) = Inr (Some (codeBlock lines))"
| "convertNode (Ast KBlockquote cs) =
     (case convertChildren cs of
        Inl e \<Rightarrow> Inl e
      | Inr content \<Rightarrow>
          Inr (Some [(''type'', AString ''blockquote''), (''content'', grown content)]))"
| "convertNode (Ast KThematicBreak cs) = Inr (Some [(''type'', AString ''rule'')])"
| "convertNode (Ast KTable cs) =
     (case convertTable cs of Inl e \<Rightarrow> Inl e | Inr table \<Rightarrow> Inr (Some table))"
| "convertNode (Ast k cs) =
     (if cs \<noteq> [] \<and> Type k = TypeBlock then
        (case convertChildren cs of
           Inl e \<Rightarrow> Inl e
         | Inr children \<Rightarrow> if length children > 0 then Inr (Some (children ! 0)) else Inr None)
      else Inr None)"

text \<open>
  \<open>Convert\<close>, with goldmark's parser (tables, strikethrough and linkify switched on) as
  the parameter \<open>parse\<close>.
\<close>

definition Convert :: "(string \<Rightarrow> ast) \<Rightarrow> string \<Rightarrow> panic + Node" where
  "Convert parse markdown =
     (case convertChildren (childrenOf (parse markdown)) of
        Inl e \<Rightarrow> Inl e
      | Inr content \<Rightarrow>
          Inr [(''version'', AInt 1), (''type'', AString ''doc''), (''content'', grown content)])"

section \<open>The inline converter over Go's slices\<close>

text \<open>
  In the definitions above a mark list is a value. In the source it is a slice: a pointer
  to a backing array, a length and a capacity, and \<^verbatim>\<open>append\<close> writes into the backing
  array when the capacity allows. This section keeps the backing arrays in an explicit
  store, so that sharing between the mark lists of sibling branches would show.

  The store is the list of the backing arrays allocated so far; an address is an index
  into it. A slice is nil, or an address with a length; its capacity is the length of its
  array (the converter never reslices a mark list). The zero value of an unused slot is the
  empty node.
\<close>

type_synonym heap = "Node list list"

datatype slice = NilSlice | Slice nat nat

text \<open>
  A leaf under construction: its keys other than \<^verbatim>\<open>"marks"\<close>, and the slice stored under
  \<^verbatim>\<open>"marks"\<close> when there is one. \<open>deref\<close> reads the leaf's marks out of the store.
\<close>

type_synonym hnode = "Node \<times> slice option"

definition readSlice :: "heap \<Rightarrow> slice \<Rightarrow> Node list" where
  "readSlice h s = (case s of NilSlice \<Rightarrow> [] | Slice a n \<Rightarrow> take n (h ! a))"

definition lenSlice :: "slice \<Rightarrow> nat" where
  "lenSlice s = (case s of NilSlice \<Rightarrow> 0 | Slice a n \<Rightarrow> n)"

definition validSlice :: "heap \<Rightarrow> slice \<Rightarrow> bool" where
  "validSlice h s = (case s of NilSlice \<Rightarrow> True | Slice a n \<Rightarrow> a < length h \<and> n \<le> length (h ! a))"

text \<open>
  \<^verbatim>\<open>
  func copyMarks(marks []Node) []Node {
      if marks == nil { return nil }
      result := make([]Node, len(marks))
      copy(result, marks)
      return result
  }
  \<close>
  \<^verbatim>\<open>make([]Node, n)\<close> allocates an array of exactly \<open>n\<close> slots.
\<close>

definition copyMarksH :: "slice \<Rightarrow> heap \<Rightarrow> slice \<times> heap" where
  "copyMarksH marks h =
     (case marks of
        NilSlice \<Rightarrow> (NilSlice, h)
      | Slice a n \<Rightarrow> (Slice (length h) n, h @ [take n (h ! a)]))"

text \<open>
  \<^verbatim>\<open>append(s, x)\<close>: in place when the length is below the capacity, otherwise into a new
  array. The capacity the runtime gives the new array is the parameter \<open>grow\<close> (at least
  one more than the length is used whatever \<open>grow\<close> says).
\<close>

definition appendH :: "(nat \<Rightarrow> nat) \<Rightarrow> slice \<Rightarrow> Node \<Rightarrow> heap \<Rightarrow> slice \<times> heap" where
  "appendH grow s x h =
     (case s of
        NilSlice \<Rightarrow> (Slice (length h) 1, h @ [x # replicate (grow 0 - 1) []])
      | Slice a n \<Rightarrow>
          if n < length (h ! a) then (Slice a (Suc n), h[a := (h ! a)[n := x]])
          else (Slice (length h) (Suc n),
                h @ [take n (h ! a) @ x # replicate (grow n - Suc n) []]))"

text \<open>\<^verbatim>\<open>newMarks := append(copyMarks(marks), x)\<close>\<close>

definition extendH :: "(nat \<Rightarrow> nat) \<Rightarrow> slice \<Rightarrow> Node \<Rightarrow> heap \<Rightarrow> slice \<times> heap" where
  "extendH grow marks x h = (case copyMarksH marks h of (c, h1) \<Rightarrow> appendH grow c x h1)"

definition sliceValue :: "heap \<Rightarrow> slice \<Rightarrow> any" where
  "sliceValue h s = (case s of NilSlice \<Rightarrow> ANilNodes | Slice a n \<Rightarrow> ANodes (take n (h ! a)))"

definition deref :: "heap \<Rightarrow> hnode \<Rightarrow> Node" where
  "deref h l =
     (case snd l of
        None \<Rightarrow> fst l
      | Some s \<Rightarrow> AList.update ''marks'' (sliceValue h s) (fst l))"

text \<open>The run merger on such leaves: it reads the marks through the store and writes none.\<close>

fun mergeLoopH :: "heap \<Rightarrow> hnode list \<Rightarrow> hnode list \<Rightarrow> panic + hnode list" where
  "mergeLoopH h merged [] = Inr merged"
| "mergeLoopH h merged (node # rest) =
     (let prev = last merged in
      if mergeable (deref h prev) (deref h node) then
        (case textOf (deref h prev) of
           None \<Rightarrow> Inl TypeAssertion
         | Some s \<Rightarrow>
             (case textOf (deref h node) of
                None \<Rightarrow> Inl TypeAssertion
              | Some t \<Rightarrow>
                  mergeLoopH h
                    (merged[length merged - 1 :=
                       (AList.update ''text'' (AString (s @ t)) (fst prev), snd prev)])
                    rest))
      else mergeLoopH h (merged @ [node]) rest)"

fun mergeTextNodesH :: "heap \<Rightarrow> hnode list \<Rightarrow> panic + hnode list" where
  "mergeTextNodesH h [] = Inr []"
| "mergeTextNodesH h [n] = Inr [n]"
| "mergeTextNodesH h (n # node # rest) = mergeLoopH h [n] (node # rest)"

text \<open>
  The inline converter, threading the store through the loop in the order of the source.
\<close>

definition consH :: "hnode list \<Rightarrow> panic + hnode list \<times> heap \<Rightarrow> panic + hnode list \<times> heap" where
  "consH ls r = (case r of Inl e \<Rightarrow> Inl e | Inr (ls', h) \<Rightarrow> Inr (ls @ ls', h))"

definition thenMergeH :: "panic + hnode list \<times> heap \<Rightarrow> panic + hnode list \<times> heap" where
  "thenMergeH r =
     (case r of
        Inl e \<Rightarrow> Inl e
      | Inr (nodes, h) \<Rightarrow>
          (case mergeTextNodesH h nodes of Inl e \<Rightarrow> Inl e | Inr merged \<Rightarrow> Inr (merged, h)))"

definition breakH :: "bool \<Rightarrow> bool \<Rightarrow> hnode list" where
  "breakH soft hard =
     (if hard then [(hardBreak, None)] else if soft then [(textNode '' '', None)] else [])"

fun convertInlineChildrenH ::
    "(nat \<Rightarrow> nat) \<Rightarrow> ast list \<Rightarrow> slice \<Rightarrow> heap \<Rightarrow> panic + hnode list \<times> heap"
  and inlineLoopH ::
    "(nat \<Rightarrow> nat) \<Rightarrow> ast list \<Rightarrow> slice \<Rightarrow> heap \<Rightarrow> panic + hnode list \<times> heap" where
  "convertInlineChildrenH grow children marks h = thenMergeH (inlineLoopH grow children marks h)"
| "inlineLoopH grow [] marks h = Inr ([], h)"
| "inlineLoopH grow (Ast (KText text soft hard) cs # rest) marks h =
     (if text = [] then inlineLoopH grow rest marks h
      else if lenSlice marks > 0 then
        (case copyMarksH marks h of
           (c, h1) \<Rightarrow>
             consH ((textNode text, Some c) # breakH soft hard) (inlineLoopH grow rest marks h1))
      else consH ((textNode text, None) # breakH soft hard) (inlineLoopH grow rest marks h))"
| "inlineLoopH grow (Ast (KEmphasis level) cs # rest) marks h =
     (case extendH grow marks (simpleMark (if level = 2 then ''strong'' else ''em'')) h of
        (newMarks, h2) \<Rightarrow>
          (case convertInlineChildrenH grow cs newMarks h2 of
             Inl e \<Rightarrow> Inl e
           | Inr (ls, h3) \<Rightarrow> consH ls (inlineLoopH grow rest marks h3)))"
| "inlineLoopH grow (Ast (KCodeSpan text) cs # rest) marks h =
     (case extendH grow marks (simpleMark ''code'') h of
        (newMarks, h2) \<Rightarrow>
          consH [(textNode text, Some newMarks)] (inlineLoopH grow rest marks h2))"
| "inlineLoopH grow (Ast (KLink destination) cs # rest) marks h =
     (case extendH grow marks (linkMark destination) h of
        (newMarks, h2) \<Rightarrow>
          (case convertInlineChildrenH grow cs newMarks h2 of
             Inl e \<Rightarrow> Inl e
           | Inr (ls, h3) \<Rightarrow> consH ls (inlineLoopH grow rest marks h3)))"
| "inlineLoopH grow (Ast (KAutoLink t url) cs # rest) marks h =
     consH [(inlineCard url, None)] (inlineLoopH grow rest marks h)"
| "inlineLoopH grow (Ast (KImage text destination) cs # rest) marks h =
     (case extendH grow marks (linkMark destination) h of
        (newMarks, h2) \<Rightarrow>
          consH [(textNode (if text = [] then destination else text), Some newMarks)]
            (inlineLoopH grow rest marks h2))"
| "inlineLoopH grow (Ast KStrikethrough cs # rest) marks h =
     (case extendH grow marks (simpleMark ''strike'') h of
        (newMarks, h2) \<Rightarrow>
          (case convertInlineChildrenH grow cs newMarks h2 of
             Inl e \<Rightarrow> Inl e
           | Inr (ls, h3) \<Rightarrow> consH ls (inlineLoopH grow rest marks h3)))"
| "inlineLoopH grow (Ast KRawHTML cs # rest) marks h = inlineLoopH grow rest marks h"
| "inlineLoopH grow (Ast k cs # rest) marks h =
     (if cs \<noteq> [] then
        (case convertInlineChildrenH grow cs marks h of
           Inl e \<Rightarrow> Inl e
         | Inr (ls, h3) \<Rightarrow> consH ls (inlineLoopH grow rest marks h3))
      else inlineLoopH grow rest marks h)"

text \<open>
  \<open>extends h h'\<close>: every array of \<open>h\<close> is in \<open>h'\<close> at its address, unchanged. \<open>sim\<close>
  relates a run over the store to the run over values.
\<close>

definition extends :: "heap \<Rightarrow> heap \<Rightarrow> bool" where
  "extends h h' = (take (length h) h' = h)"

definition validNode :: "heap \<Rightarrow> hnode \<Rightarrow> bool" where
  "validNode h l = (case snd l of None \<Rightarrow> True | Some s \<Rightarrow> validSlice h s)"

definition sim ::
    "heap \<Rightarrow> panic + hnode list \<times> heap \<Rightarrow> panic + Node list \<Rightarrow> bool" where
  "sim h r p =
     (case r of
        Inl e \<Rightarrow> p = Inl e
      | Inr (ls, h') \<Rightarrow>
          extends h h' \<and> list_all (validNode h') ls \<and> p = Inr (map (deref h') ls))"

definition derefAll :: "heap \<Rightarrow> panic + hnode list \<Rightarrow> panic + Node list" where
  "derefAll h r = (case r of Inl e \<Rightarrow> Inl e | Inr ls \<Rightarrow> Inr (map (deref h) ls))"

section \<open>Leaves and runs, in the specification's words\<close>

text \<open>
  The data model: a text leaf carries a literal and an ordered mark list, and has the
  \<open>marks\<close> key only when the list is not empty; a mark is a kind, and a link mark carries
  an \<open>href\<close>; the other leaves are \<open>hardBreak\<close> and \<open>inlineCard\<close>.
\<close>

definition textLeaf :: "string \<Rightarrow> Node list \<Rightarrow> Node" where
  "textLeaf s ms =
     (if ms = [] then textNode s
      else [(''type'', AString ''text''), (''text'', AString s), (''marks'', ANodes ms)])"

definition markList :: "Node \<Rightarrow> Node list" where
  "markList n = (case marksOf n of None \<Rightarrow> [] | Some ms \<Rightarrow> ms)"

definition literal :: "Node \<Rightarrow> string" where
  "literal n = (case textOf n of None \<Rightarrow> [] | Some s \<Rightarrow> s)"

definition typeName :: "Node \<Rightarrow> string" where
  "typeName m = (case map_of m ''type'' of Some (AString t) \<Rightarrow> t | _ \<Rightarrow> [])"

definition attrOf :: "string \<Rightarrow> Node \<Rightarrow> string" where
  "attrOf key m =
     (case map_of m ''attrs'' of
        Some (ANode a) \<Rightarrow> (case map_of a key of Some (AString h) \<Rightarrow> h | _ \<Rightarrow> [])
      | _ \<Rightarrow> [])"

definition isMark :: "Node \<Rightarrow> bool" where
  "isMark m = (m = simpleMark (typeName m) \<or> m = linkMark (attrOf ''href'' m))"

definition isLeaf :: "Node \<Rightarrow> bool" where
  "isLeaf n =
     ((n = textLeaf (literal n) (markList n) \<and> list_all isMark (markList n)) \<or>
      n = hardBreak \<or> n = inlineCard (attrOf ''url'' n))"

definition sameMarks :: "Node \<Rightarrow> Node \<Rightarrow> bool" where
  "sameMarks x y = (isType ''text'' y \<and> markList y = markList x)"

text \<open>
  The merger as the specification states it: every maximal run of consecutive text leaves
  with the same mark list becomes one text leaf holding the concatenated literals; any
  other leaf is kept and ends the run.
\<close>

function mergeRuns :: "Node list \<Rightarrow> Node list" where
  "mergeRuns [] = []"
| "mergeRuns (x # xs) =
     (if isType ''text'' x then
        textLeaf (concat (map literal (x # takeWhile (sameMarks x) xs))) (markList x)
          # mergeRuns (dropWhile (sameMarks x) xs)
      else x # mergeRuns xs)"
  by pat_completeness auto
termination
  by (relation "measure length") (auto simp: less_Suc_eq_le length_dropWhile_le)

declare mergeRuns.simps(2) [simp del]

section \<open>Blocks and tables, in the specification's words\<close>

definition returns :: "panic + 'a \<Rightarrow> bool" where
  "returns r = (case r of Inl e \<Rightarrow> False | Inr x \<Rightarrow> True)"

text \<open>The kinds the type switch of \<open>convertNode\<close> names.\<close>

definition recognized :: "kind \<Rightarrow> bool" where
  "recognized k =
     (case k of
        KParagraph \<Rightarrow> True | KTextBlock \<Rightarrow> True | KHeading level \<Rightarrow> True
      | KList ordered \<Rightarrow> True | KFencedCodeBlock lines language \<Rightarrow> True
      | KCodeBlock lines \<Rightarrow> True | KBlockquote \<Rightarrow> True | KThematicBreak \<Rightarrow> True
      | KTable \<Rightarrow> True | _ \<Rightarrow> False)"

text \<open>A child the block converter drops, and the blocks a child contributes.\<close>

definition dropped :: "ast \<Rightarrow> bool" where
  "dropped c = (convertNode c = Inr None)"

definition kept :: "ast \<Rightarrow> Node list" where
  "kept c =
     (case convertNode c of
        Inl e \<Rightarrow> []
      | Inr r \<Rightarrow> (case r of None \<Rightarrow> [] | Some node \<Rightarrow> [node]))"

text \<open>
  The table as the specification states it: one row per header or body row, cells of kind
  \<open>tableHeader\<close> in the header row and \<open>tableCell\<close> in the others, each cell holding one
  paragraph around its inline content. The content of that paragraph is \<open>ANodes\<close> of the
  inline content, a slice with a backing array whatever its length: for a cell without
  inline content it is the explicit empty sequence \<open>ANodes []\<close> and not the nil slice. The
  rows of the table and the cells of a row are sequences the specification says nothing
  more about; they are stored as the converter grows them.
\<close>

definition inlineOf :: "ast \<Rightarrow> Node list" where
  "inlineOf c = (case convertInlineChildren (childrenOf c) [] of Inl e \<Rightarrow> [] | Inr ls \<Rightarrow> ls)"

definition cellNode :: "string \<Rightarrow> ast \<Rightarrow> Node" where
  "cellNode cellType c =
     [(''type'', AString cellType),
      (''content'', ANodes
         [[(''type'', AString ''paragraph''),
           (''content'', ANodes (inlineOf c))]])]"

definition rowNode :: "ast \<Rightarrow> Node" where
  "rowNode r =
     [(''type'', AString ''tableRow''),
      (''content'', grown
         (map (cellNode (if kindOf r = KTableHeader then ''tableHeader'' else ''tableCell''))
            (filter (\<lambda>c. kindOf c = KTableCell) (childrenOf r))))]"

definition tableOf :: "ast list \<Rightarrow> Node" where
  "tableOf rows =
     [(''type'', AString ''table''),
      (''attrs'', ANode [(''isNumberColumnEnabled'', ABool False),
                         (''layout'', AString ''default'')]),
      (''content'', grown
         (map rowNode (filter (\<lambda>r. kindOf r = KTableHeader \<or> kindOf r = KTableRow) rows)))]"

section \<open>The output tree and the predicates of the claims\<close>

text \<open>The nodes of an output tree: a node and, through its \<open>content\<close>, its descendants.\<close>

function treeNodes :: "Node \<Rightarrow> Node list" where
  "treeNodes n =
     n # (case map_of n ''content'' of
            Some (ANodes cs) \<Rightarrow> concat (map treeNodes cs)
          | _ \<Rightarrow> [])"
  by pat_completeness auto

lemma size_map_of: "map_of n k = Some v \<Longrightarrow> size v < size (ANode n)"
  by (induction n) (auto split: if_splits)

lemma size_member: "c \<in> set cs \<Longrightarrow> size (ANode c) < size (ANodes cs)"
  by (induction cs) auto

termination treeNodes
  apply (relation "measure (\<lambda>n. size (ANode n))")
   apply simp
  apply (metis in_measure size_map_of size_member less_trans)
  done

declare treeNodes.simps [simp del]

text \<open>
  A text leaf with a non-empty string, and a source in which no code span, image or code
  block would give an empty one.
\<close>

definition nonEmptyText :: "Node \<Rightarrow> bool" where
  "nonEmptyText n = (if isType ''text'' n then literal n \<noteq> [] else True)"

fun nonEmptySource :: "ast \<Rightarrow> bool" where
  "nonEmptySource (Ast k cs) =
     ((case k of
         KCodeSpan text \<Rightarrow> text \<noteq> []
       | KImage text destination \<Rightarrow> (if text = [] then destination else text) \<noteq> []
       | KFencedCodeBlock lines language \<Rightarrow> trimNewline (concat lines) \<noteq> []
       | KCodeBlock lines \<Rightarrow> trimNewline (concat lines) \<noteq> []
       | _ \<Rightarrow> True) \<and>
      list_all nonEmptySource cs)"

text \<open>A conversion that returned leaves of the data model which all satisfy \<open>P\<close>.\<close>

definition leavesAll :: "(Node \<Rightarrow> bool) \<Rightarrow> panic + Node list \<Rightarrow> bool" where
  "leavesAll P r = (case r of Inl e \<Rightarrow> False | Inr ls \<Rightarrow> list_all isLeaf ls \<and> list_all P ls)"

definition treeOk :: "Node \<Rightarrow> bool" where
  "treeOk out = list_all nonEmptyText (treeNodes out)"

definition okNode :: "panic + Node option \<Rightarrow> bool" where
  "okNode r =
     (case r of Inl e \<Rightarrow> False
      | Inr x \<Rightarrow> (case x of None \<Rightarrow> True | Some out \<Rightarrow> treeOk out))"

definition okNodes :: "panic + Node list \<Rightarrow> bool" where
  "okNodes r = (case r of Inl e \<Rightarrow> False | Inr outs \<Rightarrow> list_all treeOk outs)"

text \<open>
  What a leaf made under a link with a given destination can be: a text leaf carrying the
  link mark, the unmarked space of a soft line break, a hard break, or the card of an
  autolink nested in the link.
\<close>

definition linked :: "string \<Rightarrow> Node \<Rightarrow> bool" where
  "linked destination n = (isType ''text'' n \<and> linkMark destination \<in> set (markList n))"

definition blank :: "Node \<Rightarrow> bool" where
  "blank n = (isType ''text'' n \<and> markList n = [] \<and> list_all (\<lambda>c. c = CHR '' '') (literal n))"

definition underLink :: "string \<Rightarrow> Node \<Rightarrow> bool" where
  "underLink destination n =
     (linked destination n \<or> blank n \<or> n = hardBreak \<or> n = inlineCard (attrOf ''url'' n))"

definition noCard :: "Node \<Rightarrow> bool" where
  "noCard n = (if isType ''inlineCard'' n then False else True)"

fun noAutoLink :: "ast \<Rightarrow> bool" where
  "noAutoLink (Ast k cs) =
     ((case k of KAutoLink t url \<Rightarrow> False | _ \<Rightarrow> True) \<and> list_all noAutoLink cs)"

text \<open>A conversion that returned, and returned leaves of the data model.\<close>

definition okLeaves :: "panic + Node list \<Rightarrow> bool" where
  "okLeaves r = (case r of Inl e \<Rightarrow> False | Inr ls \<Rightarrow> list_all isLeaf ls)"

section \<open>Stored slices\<close>

lemma grown_simps [simp]: "grown [] = ANilNodes" "grown (x # xs) = ANodes (x # xs)"
  by (simp_all add: grown_def)

lemma grown_nonempty: "nodes \<noteq> [] \<Longrightarrow> grown nodes = ANodes nodes"
  by (simp add: grown_def)

lemma elems_simps [simp]: "elems ANilNodes = []" "elems (ANodes ns) = ns"
  by (simp_all add: elems_def)

lemma elems_grown [simp]: "elems (grown nodes) = nodes"
  by (simp add: grown_def)

text \<open>The nil slice and the explicit empty slice are different values.\<close>

lemma nil_is_not_empty: "grown [] \<noteq> ANodes []"
  by simp

section \<open>Properties of the run merger\<close>

lemma mergeLoop_snoc:
  "mergeLoop (pre @ [p]) (n # rest) =
     (if mergeable p n then
        (case textOf p of
           None \<Rightarrow> Inl TypeAssertion
         | Some s \<Rightarrow>
             (case textOf n of
                None \<Rightarrow> Inl TypeAssertion
              | Some t \<Rightarrow> mergeLoop (pre @ [AList.update ''text'' (AString (s @ t)) p]) rest))
      else mergeLoop ((pre @ [p]) @ [n]) rest)"
  by (simp add: Let_def split: option.splits)

lemma isType_update_text [simp]:
  "isType ''text'' (AList.update ''text'' v p) = isType ''text'' p"
  by (simp add: isType_def update_conv')

lemma marksOf_update_text [simp]:
  "marksOf (AList.update ''text'' v p) = marksOf p"
  by (simp add: marksOf_def update_conv')

lemma textOf_update_text [simp]:
  "textOf (AList.update ''text'' (AString s) p) = Some s"
  by (simp add: textOf_def update_conv')

lemma mergeable_update_left [simp]:
  "mergeable (AList.update ''text'' v p) n = mergeable p n"
  by (simp add: mergeable_def marksEqual_def)

lemma mergeable_update_right [simp]:
  "mergeable q (AList.update ''text'' v p) = mergeable q p"
  by (simp add: mergeable_def marksEqual_def cong: option.case_cong)

lemma adjacentFree_snoc2:
  "adjacentFree (xs @ [a, b]) = (adjacentFree (xs @ [a]) \<and> \<not> mergeable a b)"
  by (induction xs rule: adjacentFree.induct) auto

lemma adjacentFree_snoc_update:
  "adjacentFree (xs @ [AList.update ''text'' v p]) = adjacentFree (xs @ [p])"
  by (induction xs rule: adjacentFree.induct) auto

lemma mergeLoop_adjacentFree:
  "mergeLoop (pre @ [p]) rest = Inr ys \<Longrightarrow> adjacentFree (pre @ [p]) \<Longrightarrow> adjacentFree ys"
proof (induction rest arbitrary: pre p)
  case Nil
  then show ?case by simp
next
  case (Cons n rest)
  show ?case
  proof (cases "mergeable p n")
    case True
    with Cons.prems(1) obtain s t where
      st: "textOf p = Some s" "textOf n = Some t"
      and run: "mergeLoop (pre @ [AList.update ''text'' (AString (s @ t)) p]) rest = Inr ys"
      by (auto simp: mergeLoop_snoc simp del: mergeLoop.simps split: option.splits)
    from Cons.prems(2) have "adjacentFree (pre @ [AList.update ''text'' (AString (s @ t)) p])"
      by (simp add: adjacentFree_snoc_update)
    with Cons.IH [OF run] show ?thesis .
  next
    case False
    with Cons.prems(1) have run: "mergeLoop ((pre @ [p]) @ [n]) rest = Inr ys"
      by (simp add: mergeLoop_snoc del: mergeLoop.simps)
    from False Cons.prems(2) have "adjacentFree ((pre @ [p]) @ [n])"
      by (simp add: adjacentFree_snoc2)
    with Cons.IH [OF run] show ?thesis .
  qed
qed

lemma mergeLoop_fixed:
  "adjacentFree (p # rest) \<Longrightarrow> mergeLoop (pre @ [p]) rest = Inr (pre @ p # rest)"
proof (induction rest arbitrary: pre p)
  case Nil
  then show ?case by simp
next
  case (Cons n rest)
  from Cons.prems have nm: "\<not> mergeable p n" and af: "adjacentFree (n # rest)"
    by (auto split: if_splits)
  have "mergeLoop (pre @ [p]) (n # rest) = mergeLoop ((pre @ [p]) @ [n]) rest"
    using nm by (simp add: mergeLoop_snoc del: mergeLoop.simps)
  also have "\<dots> = Inr ((pre @ [p]) @ n # rest)"
    by (rule Cons.IH [OF af])
  finally show ?case by simp
qed

lemma mergeTextNodes_fixed: "adjacentFree ys \<Longrightarrow> mergeTextNodes ys = Inr ys"
proof (cases ys rule: mergeTextNodes.cases)
  case (3 n node rest)
  assume "adjacentFree ys"
  with 3 mergeLoop_fixed [of n "node # rest" "[]"] show ?thesis by simp
qed simp_all

lemma mergeTextNodes_adjacentFree: "mergeTextNodes xs = Inr ys \<Longrightarrow> adjacentFree ys"
proof (cases xs rule: mergeTextNodes.cases)
  case (3 n node rest)
  assume "mergeTextNodes xs = Inr ys"
  with 3 mergeLoop_adjacentFree [of "[]" n "node # rest" ys] show ?thesis by simp
qed auto

lemma mergeLoop_total:
  "list_all textHasString (p # rest) \<Longrightarrow> \<exists>ys. mergeLoop (pre @ [p]) rest = Inr ys"
proof (induction rest arbitrary: pre p)
  case Nil
  then show ?case by simp
next
  case (Cons n rest)
  show ?case
  proof (cases "mergeable p n")
    case True
    then have "isType ''text'' p" "isType ''text'' n" by (simp_all add: mergeable_def)
    with Cons.prems obtain s t where st: "textOf p = Some s" "textOf n = Some t"
      by (auto simp: textHasString_def)
    have "textHasString (AList.update ''text'' (AString (s @ t)) p)"
      by (simp add: textHasString_def)
    with Cons.prems
    have "list_all textHasString (AList.update ''text'' (AString (s @ t)) p # rest)"
      by simp
    from Cons.IH [OF this] True st show ?thesis
      by (simp add: mergeLoop_snoc del: mergeLoop.simps)
  next
    case False
    have "list_all textHasString (n # rest)" using Cons.prems by simp
    from Cons.IH [OF this, of "pre @ [p]"] False show ?thesis
      by (simp add: mergeLoop_snoc del: mergeLoop.simps)
  qed
qed

lemma mergeTextNodes_total:
  "list_all textHasString xs \<Longrightarrow> \<exists>ys. mergeTextNodes xs = Inr ys"
proof (cases xs rule: mergeTextNodes.cases)
  case (3 n node rest)
  assume "list_all textHasString xs"
  with 3 mergeLoop_total [of n "node # rest" "[]"] show ?thesis by simp
qed simp_all

text \<open>
  Claim C10. The run merger is idempotent: on a sequence whose text leaves hold a string the
  merger returns, merging its result again returns that result, and the result has no two
  neighbouring text leaves whose marks compare equal.
\<close>

theorem mergeTextNodes_idempotent:
  "list_all textHasString xs \<Longrightarrow>
   \<exists>ys. mergeTextNodes xs = Inr ys \<and> mergeTextNodes ys = Inr ys \<and> adjacentFree ys"
proof -
  assume "list_all textHasString xs"
  then obtain ys where ys: "mergeTextNodes xs = Inr ys"
    using mergeTextNodes_total by blast
  then have free: "adjacentFree ys" by (rule mergeTextNodes_adjacentFree)
  then have "mergeTextNodes ys = Inr ys" by (rule mergeTextNodes_fixed)
  with ys free show ?thesis by blast
qed

lemma sprint_simpleMark: "Sprint (ANode (simpleMark t)) = ''map[type:'' @ t @ '']''"
  by (simp add: simpleMark_def printMap_def)

lemma sprint_linkMark:
  "Sprint (ANode (linkMark h)) = ''map[attrs:map[href:'' @ h @ ''] type:link]''"
  by (simp add: linkMark_def printMap_def)

theorem mergeTextNodes_idempotent_witness:
  "list_all textHasString
     [textNode ''a'', textNode ''b'', hardBreak,
      AList.update ''marks'' (ANodes [simpleMark ''em'']) (textNode ''c''),
      AList.update ''marks'' (ANodes [simpleMark ''em'']) (textNode ''d''),
      textNode ''e''] \<and>
   mergeTextNodes
     [textNode ''a'', textNode ''b'', hardBreak,
      AList.update ''marks'' (ANodes [simpleMark ''em'']) (textNode ''c''),
      AList.update ''marks'' (ANodes [simpleMark ''em'']) (textNode ''d''),
      textNode ''e''] =
   Inr [textNode ''ab'', hardBreak,
        AList.update ''marks'' (ANodes [simpleMark ''em'']) (textNode ''cd''),
        textNode ''e''] \<and>
   mergeTextNodes
     [textNode ''ab'', hardBreak,
      AList.update ''marks'' (ANodes [simpleMark ''em'']) (textNode ''cd''),
      textNode ''e''] =
   Inr [textNode ''ab'', hardBreak,
        AList.update ''marks'' (ANodes [simpleMark ''em'']) (textNode ''cd''),
        textNode ''e'']"
  using mergeTextNodes_idempotent
    [of "[textNode ''a'', textNode ''b'', hardBreak,
      AList.update ''marks'' (ANodes [simpleMark ''em'']) (textNode ''c''),
      AList.update ''marks'' (ANodes [simpleMark ''em'']) (textNode ''d''),
      textNode ''e'']"]
  by (simp add: textHasString_def isType_def textOf_def textNode_def hardBreak_def simpleMark_def
      mergeable_def marksEqual_def marksOf_def printMap_def)

subsection \<open>The merger against the specification's runs\<close>

lemma isMark_cases: "isMark m \<longleftrightarrow> (\<exists>t. m = simpleMark t) \<or> (\<exists>h. m = linkMark h)"
  by (auto simp: isMark_def typeName_def attrOf_def simpleMark_def linkMark_def)

lemma sprint_isMark_inj:
  "isMark x \<Longrightarrow> isMark y \<Longrightarrow> Sprint (ANode x) = Sprint (ANode y) \<longleftrightarrow> x = y"
  unfolding isMark_cases
  by (auto simp: sprint_simpleMark sprint_linkMark simp del: Sprint.simps)

lemma sameSprint_isMark:
  "list_all isMark a \<Longrightarrow> list_all isMark b \<Longrightarrow> length a = length b \<Longrightarrow>
   sameSprint a b \<longleftrightarrow> a = b"
proof (induction a b rule: sameSprint.induct)
  case (1 x xs y ys)
  then show ?case using sprint_isMark_inj [of x y] by (auto simp del: Sprint.simps)
qed simp_all

lemma textLeaf_simps [simp]:
  "isType ''text'' (textLeaf s ms)"
  "textOf (textLeaf s ms) = Some s"
  "literal (textLeaf s ms) = s"
  "marksOf (textLeaf s ms) = (if ms = [] then None else Some ms)"
  "markList (textLeaf s ms) = ms"
  "AList.update ''text'' (AString u) (textLeaf s ms) = textLeaf u ms"
  by (simp_all add: textLeaf_def textNode_def isType_def textOf_def literal_def marksOf_def
      markList_def)

lemma not_text_leaves [simp]:
  "\<not> isType ''text'' hardBreak" "\<not> isType ''text'' (inlineCard u)"
  by (simp_all add: isType_def hardBreak_def inlineCard_def)

lemma isLeaf_text:
  "isLeaf p \<Longrightarrow> isType ''text'' p \<Longrightarrow>
   p = textLeaf (literal p) (markList p) \<and> list_all isMark (markList p)"
  unfolding isLeaf_def using not_text_leaves by metis

lemma sameMarks_textLeaf: "sameMarks (textLeaf s ms) = (\<lambda>y. isType ''text'' y \<and> markList y = ms)"
  by (rule ext) (simp add: sameMarks_def)

lemma isLeaf_textLeaf: "list_all isMark ms \<Longrightarrow> isLeaf (textLeaf s ms)"
  by (simp add: isLeaf_def)

lemma marksEqual_textLeaf:
  "list_all isMark a \<Longrightarrow> list_all isMark b \<Longrightarrow>
   marksEqual (textLeaf s a) (textLeaf t b) \<longleftrightarrow> a = b"
  using sameSprint_isMark [of a b] by (auto simp: marksEqual_def)

lemma mergeable_leaves:
  assumes "isLeaf p" "isLeaf n"
  shows "mergeable p n \<longleftrightarrow> isType ''text'' p \<and> sameMarks p n"
proof (cases "isType ''text'' p \<and> isType ''text'' n")
  case True
  with assms obtain s a t b where
    "p = textLeaf s a" "list_all isMark a" "n = textLeaf t b" "list_all isMark b"
    using isLeaf_text by metis
  then show ?thesis
    using marksEqual_textLeaf [of a b s t] by (auto simp: mergeable_def sameMarks_def)
next
  case False
  then show ?thesis by (auto simp: mergeable_def sameMarks_def)
qed

lemma mergeRuns_absorb:
  "list_all isMark ms \<Longrightarrow> sameMarks (textLeaf s ms) n \<Longrightarrow>
   mergeRuns (textLeaf s ms # n # rest) = mergeRuns (textLeaf (s @ literal n) ms # rest)"
  by (simp add: mergeRuns.simps(2) sameMarks_textLeaf)

lemma mergeRuns_keep:
  "isLeaf p \<Longrightarrow> \<not> (isType ''text'' p \<and> sameMarks p n) \<Longrightarrow>
   mergeRuns (p # n # rest) = p # mergeRuns (n # rest)"
  using isLeaf_text [of p] by (cases "isType ''text'' p") (auto simp: mergeRuns.simps(2) [of p])

lemma mergeRuns_single: "isLeaf p \<Longrightarrow> mergeRuns [p] = [p]"
  using isLeaf_text [of p] by (cases "isType ''text'' p") (auto simp: mergeRuns.simps(2) [of p])

lemma mergeLoop_mergeRuns:
  "list_all isLeaf (p # rest) \<Longrightarrow> mergeLoop (pre @ [p]) rest = Inr (pre @ mergeRuns (p # rest))"
proof (induction rest arbitrary: pre p)
  case Nil
  then show ?case by (simp add: mergeRuns_single)
next
  case (Cons n rest)
  then have leaves: "isLeaf p" "isLeaf n" "list_all isLeaf rest" by simp_all
  show ?case
  proof (cases "mergeable p n")
    case True
    then have tp: "isType ''text'' p" and tn: "isType ''text'' n" and same: "sameMarks p n"
      using mergeable_leaves [OF leaves(1,2)] by (simp_all add: mergeable_def)
    obtain s ms where p: "p = textLeaf s ms" and ms: "list_all isMark ms"
      using isLeaf_text [OF leaves(1) tp] by blast
    obtain t ns where n: "n = textLeaf t ns"
      using isLeaf_text [OF leaves(2) tn] by blast
    have "mergeLoop (pre @ [p]) (n # rest) = mergeLoop (pre @ [textLeaf (s @ t) ms]) rest"
      using True by (simp add: mergeLoop_snoc p n del: mergeLoop.simps)
    also have "\<dots> = Inr (pre @ mergeRuns (textLeaf (s @ t) ms # rest))"
      using leaves(3) ms by (intro Cons.IH) (simp add: isLeaf_textLeaf)
    also have "mergeRuns (textLeaf (s @ t) ms # rest) = mergeRuns (p # n # rest)"
      using mergeRuns_absorb [OF ms, of s n rest] same by (simp add: p n)
    finally show ?thesis .
  next
    case False
    then have no: "\<not> (isType ''text'' p \<and> sameMarks p n)"
      using mergeable_leaves [OF leaves(1,2)] by simp
    have "mergeLoop (pre @ [p]) (n # rest) = mergeLoop ((pre @ [p]) @ [n]) rest"
      using False by (simp add: mergeLoop_snoc del: mergeLoop.simps)
    also have "\<dots> = Inr ((pre @ [p]) @ mergeRuns (n # rest))"
      using leaves by (intro Cons.IH) simp
    also have "(pre @ [p]) @ mergeRuns (n # rest) = pre @ mergeRuns (p # n # rest)"
      using mergeRuns_keep [OF leaves(1) no] by simp
    finally show ?thesis .
  qed
qed

lemma mergeTextNodes_mergeRuns:
  "list_all isLeaf xs \<Longrightarrow> mergeTextNodes xs = Inr (mergeRuns xs)"
proof (cases xs rule: mergeTextNodes.cases)
  case 1
  then show ?thesis by simp
next
  case (2 n)
  assume "list_all isLeaf xs"
  with 2 show ?thesis by (simp add: mergeRuns_single)
next
  case (3 n node rest)
  assume "list_all isLeaf xs"
  with 3 mergeLoop_mergeRuns [of n "node # rest" "[]"] show ?thesis by simp
qed

text \<open>
  Claim C5. On a flat leaf sequence the run merger returns the sequence in which every
  maximal run of consecutive text leaves with the same ordered mark list is one text leaf
  with the concatenated literals and every other leaf is unchanged; a sequence of length
  0 or 1 is returned as it is.
\<close>

theorem mergeTextNodes_runs:
  "(list_all isLeaf xs \<longrightarrow> mergeTextNodes xs = Inr (mergeRuns xs)) \<and>
   (length xs \<le> 1 \<longrightarrow> mergeTextNodes xs = Inr xs)"
proof (intro conjI impI)
  assume "list_all isLeaf xs"
  then show "mergeTextNodes xs = Inr (mergeRuns xs)" by (rule mergeTextNodes_mergeRuns)
next
  assume "length xs \<le> 1"
  then show "mergeTextNodes xs = Inr xs" by (cases xs rule: mergeTextNodes.cases) simp_all
qed

lemma mark_fields [simp]:
  "typeName (simpleMark t) = t" "attrOf ''href'' (linkMark h) = h"
  "attrOf ''url'' (inlineCard u) = u"
  by (simp_all add: typeName_def attrOf_def simpleMark_def linkMark_def inlineCard_def)

lemma isMark_marks [simp]: "isMark (simpleMark t)" "isMark (linkMark h)"
  by (simp_all add: isMark_def)

lemma isLeaf_others [simp]: "isLeaf hardBreak" "isLeaf (inlineCard u)"
  by (simp_all add: isLeaf_def)

theorem mergeTextNodes_runs_witness:
  "list_all isLeaf
     [textLeaf ''a'' [simpleMark ''em''], textLeaf ''b'' [simpleMark ''em''], textLeaf ''c'' [],
      inlineCard ''u'', textLeaf ''d'' [linkMark ''u''], textLeaf ''e'' [linkMark ''u'']] \<and>
   mergeTextNodes
     [textLeaf ''a'' [simpleMark ''em''], textLeaf ''b'' [simpleMark ''em''], textLeaf ''c'' [],
      inlineCard ''u'', textLeaf ''d'' [linkMark ''u''], textLeaf ''e'' [linkMark ''u'']] =
   Inr [textLeaf ''ab'' [simpleMark ''em''], textLeaf ''c'' [], inlineCard ''u'',
        textLeaf ''de'' [linkMark ''u'']] \<and>
   length [hardBreak] \<le> 1 \<and> mergeTextNodes [hardBreak] = Inr [hardBreak]"
proof -
  let ?X = "[textLeaf ''a'' [simpleMark ''em''], textLeaf ''b'' [simpleMark ''em''],
      textLeaf ''c'' [], inlineCard ''u'', textLeaf ''d'' [linkMark ''u''],
      textLeaf ''e'' [linkMark ''u'']]"
  have leaves: "list_all isLeaf ?X" by (simp add: isLeaf_textLeaf)
  have runs: "mergeRuns ?X =
      [textLeaf ''ab'' [simpleMark ''em''], textLeaf ''c'' [], inlineCard ''u'',
       textLeaf ''de'' [linkMark ''u'']]"
    by (simp add: mergeRuns.simps(2) sameMarks_def simpleMark_def linkMark_def)
  have "mergeTextNodes ?X = Inr (mergeRuns ?X)"
    using mergeTextNodes_runs [of ?X] leaves by blast
  then have merged: "mergeTextNodes ?X =
      Inr [textLeaf ''ab'' [simpleMark ''em''], textLeaf ''c'' [], inlineCard ''u'',
           textLeaf ''de'' [linkMark ''u'']]"
    by (simp only: runs)
  have len: "length [hardBreak] \<le> 1" by simp
  have one: "mergeTextNodes [hardBreak] = Inr [hardBreak]"
    using mergeTextNodes_runs [of "[hardBreak]"] by simp
  from leaves merged len one show ?thesis by blast
qed

section \<open>The inline converter returns leaves\<close>

lemma okLeaves_Inr [simp]: "okLeaves (Inr ls) = list_all isLeaf ls"
  by (simp add: okLeaves_def)

lemma okLeaves_appendP: "okLeaves a \<Longrightarrow> okLeaves b \<Longrightarrow> okLeaves (appendP a b)"
  by (auto simp: okLeaves_def appendP_def split: sum.splits)

lemma mergeRuns_leaves: "list_all isLeaf xs \<Longrightarrow> list_all isLeaf (mergeRuns xs)"
proof (induction xs rule: mergeRuns.induct)
  case 1
  then show ?case by simp
next
  case (2 x xs)
  show ?case
  proof (cases "isType ''text'' x")
    case True
    from "2.prems" have "list_all isLeaf (dropWhile (sameMarks x) xs)"
      by (auto simp: list_all_iff dest: set_dropWhileD)
    with "2.IH"(1) [OF True] have "list_all isLeaf (mergeRuns (dropWhile (sameMarks x) xs))" .
    moreover have "list_all isMark (markList x)"
      using "2.prems" True isLeaf_text [of x] by simp
    ultimately show ?thesis using True by (simp add: mergeRuns.simps(2) isLeaf_textLeaf)
  next
    case False
    with 2 show ?thesis by (simp add: mergeRuns.simps(2))
  qed
qed

lemma okLeaves_thenMerge: "okLeaves r \<Longrightarrow> okLeaves (thenMerge r)"
  by (auto simp: okLeaves_def thenMerge_def mergeTextNodes_mergeRuns mergeRuns_leaves
      split: sum.splits)

lemma copyMarks_id [simp]: "copyMarks marks = marks"
  by (simp add: copyMarks_def)

lemma textNode_textLeaf: "textNode s = textLeaf s []"
  by (simp add: textLeaf_def)

lemma marked_textLeaf:
  "ms \<noteq> [] \<Longrightarrow> AList.update ''marks'' (ANodes ms) (textNode s) = textLeaf s ms"
  "ms \<noteq> [] \<Longrightarrow>
   [(''type'', AString ''text''), (''text'', AString s), (''marks'', ANodes ms)] = textLeaf s ms"
  by (simp_all add: textLeaf_def textNode_def)

lemma isLeaf_textNode [simp]: "isLeaf (textNode s)"
  by (simp add: textNode_textLeaf isLeaf_textLeaf)

lemma inline_leaves:
  "list_all isMark marks \<Longrightarrow> okLeaves (convertInlineChildren cs marks)"
  "list_all isMark marks \<Longrightarrow> okLeaves (inlineLoop cs marks)"
proof (induction cs marks and cs marks rule: convertInlineChildren_inlineLoop.induct)
  case (1 children marks)
  then show ?case by (simp add: okLeaves_thenMerge)
next
  case (3 literal0 soft hard cs rest marks)
  then show ?case
    by (auto intro!: okLeaves_appendP simp: marked_textLeaf isLeaf_textLeaf)
qed (auto intro!: okLeaves_appendP simp: marked_textLeaf isLeaf_textLeaf simp del: convertInlineChildren.simps)

section \<open>Tables and blocks\<close>

lemma returns_simps [simp]: "returns (Inr x)" "\<not> returns (Inl e)"
  by (simp_all add: returns_def)

lemma returnsE: "returns r \<Longrightarrow> \<exists>x. r = Inr x"
  by (cases r) simp_all

lemma okLeaves_returns: "okLeaves r \<Longrightarrow> \<exists>ls. r = Inr ls \<and> list_all isLeaf ls"
  by (cases r) (simp_all add: okLeaves_def)

lemma inline_top: "\<exists>ls. convertInlineChildren cs [] = Inr ls \<and> list_all isLeaf ls"
  using inline_leaves(1) [of "[]" cs] okLeaves_returns by simp

lemma inlineOf_eq: "convertInlineChildren cs [] = Inr (inlineOf (Ast k cs))"
  using inline_top [of cs] by (auto simp: inlineOf_def simp del: convertInlineChildren.simps)

lemma appendP_Inr [simp]: "appendP (Inr xs) (Inr ys) = Inr (xs @ ys)"
  by (simp add: appendP_def)

lemma convertTableCells_map:
  "convertTableCells cs cellType =
     Inr (map (cellNode cellType) (filter (\<lambda>c. kindOf c = KTableCell) cs))"
proof (induction cs cellType rule: convertTableCells.induct)
  case (2 cs rest cellType)
  then show ?case
    using inlineOf_eq [of cs KTableCell]
    by (simp add: tableCell_def cellNode_def grown_nonempty del: convertInlineChildren.simps)
qed simp_all

lemma tableRows_map:
  "tableRows rows =
     Inr (map rowNode (filter (\<lambda>r. kindOf r = KTableHeader \<or> kindOf r = KTableRow) rows))"
  by (induction rows rule: tableRows.induct)
     (simp_all add: convertTableCells_map tableRow_def rowNode_def)

lemma convertTable_unfold:
  "convertTable rows =
     Inr [(''type'', AString ''table''),
          (''attrs'', ANode [(''isNumberColumnEnabled'', ABool False),
                             (''layout'', AString ''default'')]),
          (''content'', grown
             (map rowNode
                (filter (\<lambda>r. kindOf r = KTableHeader \<or> kindOf r = KTableRow) rows)))]"
  by (simp add: convertTable_def tableRows_map)

text \<open>
  A cell without inline content holds a paragraph whose content is the explicit empty
  sequence; storing the inline converter's result as it is would have given the nil slice.
\<close>

lemma empty_cell_explicit:
  "tableCell cellType [] =
     [(''type'', AString cellType),
      (''content'', ANodes [[(''type'', AString ''paragraph''), (''content'', ANodes [])]])]"
  "tableCell cellType [] \<noteq>
     [(''type'', AString cellType),
      (''content'', ANodes [[(''type'', AString ''paragraph''), (''content'', grown [])]])]"
  by (simp_all add: tableCell_def)

text \<open>
  Claim C9. For every table node the converter returns a \<open>table\<close> node with
  \<open>isNumberColumnEnabled = false\<close> and \<open>layout = "default"\<close> whose content is one
  \<open>tableRow\<close> per source row, with \<open>tableHeader\<close> cells for the header row and
  \<open>tableCell\<close> cells for every other row; a cell's content is exactly one paragraph, whose
  content is the cell's converted inline content when there is some and the explicit empty
  sequence \<open>ANodes []\<close>, not the nil slice, when there is none.
\<close>

theorem convertTable_rows:
  "convertTable rows = Inr (tableOf rows) \<and>
   (convertInlineChildren cs [] = Inr [] \<longrightarrow>
      convertTableCells [Ast KTableCell cs] cellType =
        Inr [[(''type'', AString cellType),
              (''content'', ANodes [[(''type'', AString ''paragraph''),
                                     (''content'', ANodes [])]])]] \<and>
      ANodes [] \<noteq> grown [])"
proof (intro conjI impI)
  have "tableRows rows =
      Inr (map rowNode (filter (\<lambda>r. kindOf r = KTableHeader \<or> kindOf r = KTableRow) rows))"
    by (rule tableRows_map)
  then show "convertTable rows = Inr (tableOf rows)" by (simp add: convertTable_def tableOf_def)
next
  assume "convertInlineChildren cs [] = Inr []"
  then show "convertTableCells [Ast KTableCell cs] cellType =
      Inr [[(''type'', AString cellType),
            (''content'', ANodes [[(''type'', AString ''paragraph''),
                                   (''content'', ANodes [])]])]]"
    by (simp add: tableCell_def del: convertInlineChildren.simps)
next
  show "ANodes [] \<noteq> grown []" by simp
qed

theorem convertTable_rows_witness:
  "convertTable
     [Ast KTableHeader [Ast KTableCell [Ast (KText ''A'' False False) []], Ast KTableCell []],
      Ast KTableRow [Ast KTableCell [], Ast KTableCell [Ast (KText ''1'' False False) []]]] =
   Inr [(''type'', AString ''table''),
        (''attrs'', ANode [(''isNumberColumnEnabled'', ABool False),
                           (''layout'', AString ''default'')]),
        (''content'', ANodes
           [[(''type'', AString ''tableRow''),
             (''content'', ANodes
                [[(''type'', AString ''tableHeader''),
                  (''content'', ANodes [[(''type'', AString ''paragraph''),
                                         (''content'', ANodes [textNode ''A''])]])],
                 [(''type'', AString ''tableHeader''),
                  (''content'', ANodes [[(''type'', AString ''paragraph''),
                                         (''content'', ANodes [])]])]])],
            [(''type'', AString ''tableRow''),
             (''content'', ANodes
                [[(''type'', AString ''tableCell''),
                  (''content'', ANodes [[(''type'', AString ''paragraph''),
                                         (''content'', ANodes [])]])],
                 [(''type'', AString ''tableCell''),
                  (''content'', ANodes [[(''type'', AString ''paragraph''),
                                         (''content'', ANodes [textNode ''1''])]])]])]])] \<and>
   convertInlineChildren [] [] = Inr [] \<and>
   convertTableCells [Ast KTableCell []] ''tableCell'' =
     Inr [[(''type'', AString ''tableCell''),
           (''content'', ANodes [[(''type'', AString ''paragraph''),
                                  (''content'', ANodes [])]])]] \<and>
   ANodes [] \<noteq> ANilNodes"
proof -
  let ?rows =
    "[Ast KTableHeader [Ast KTableCell [Ast (KText ''A'' False False) []], Ast KTableCell []],
      Ast KTableRow [Ast KTableCell [], Ast KTableCell [Ast (KText ''1'' False False) []]]]"
  have empty: "convertInlineChildren [] [] = Inr []" by (simp add: thenMerge_def)
  note inst = convertTable_rows [of ?rows "[]" "''tableCell''"]
  from inst have "convertTable ?rows = Inr (tableOf ?rows)" by (rule conjunct1)
  then have table: "convertTable ?rows =
   Inr [(''type'', AString ''table''),
        (''attrs'', ANode [(''isNumberColumnEnabled'', ABool False),
                           (''layout'', AString ''default'')]),
        (''content'', ANodes
           [[(''type'', AString ''tableRow''),
             (''content'', ANodes
                [[(''type'', AString ''tableHeader''),
                  (''content'', ANodes [[(''type'', AString ''paragraph''),
                                         (''content'', ANodes [textNode ''A''])]])],
                 [(''type'', AString ''tableHeader''),
                  (''content'', ANodes [[(''type'', AString ''paragraph''),
                                         (''content'', ANodes [])]])]])],
            [(''type'', AString ''tableRow''),
             (''content'', ANodes
                [[(''type'', AString ''tableCell''),
                  (''content'', ANodes [[(''type'', AString ''paragraph''),
                                         (''content'', ANodes [])]])],
                 [(''type'', AString ''tableCell''),
                  (''content'', ANodes [[(''type'', AString ''paragraph''),
                                         (''content'', ANodes [textNode ''1''])]])]])]])]"
    by (simp add: tableOf_def rowNode_def cellNode_def inlineOf_def thenMerge_def)
  from inst empty have cell: "convertTableCells [Ast KTableCell []] ''tableCell'' =
     Inr [[(''type'', AString ''tableCell''),
           (''content'', ANodes [[(''type'', AString ''paragraph''),
                                  (''content'', ANodes [])]])]] \<and>
     ANodes [] \<noteq> grown []"
    by blast
  then have "ANodes [] \<noteq> ANilNodes" by simp
  with table empty cell show ?thesis by blast
qed

lemma returns_appendP: "returns a \<Longrightarrow> returns b \<Longrightarrow> returns (appendP a b)"
  by (auto simp: returns_def appendP_def split: sum.splits)

lemma returns_paragraphNode: "returns r \<Longrightarrow> returns (paragraphNode r)"
  by (auto simp: returns_def paragraphNode_def split: sum.splits)

lemma returns_inline: "returns (convertInlineChildren cs [])"
  using inline_top [of cs] by (auto simp del: convertInlineChildren.simps)

lemma block_returns:
  "returns (convertNode n)" "returns (convertChildren cs)" "returns (convertListItems cs)"
proof (induction n and cs and cs rule: convertNode_convertChildren_convertListItems.induct)
  case (2 child rest)
  then show ?case by (auto intro!: returns_appendP dest!: returnsE)
next
  case (4 cs rest)
  then show ?case by (auto intro!: returns_appendP dest!: returnsE)
next
  case (6 cs)
  then show ?case using returns_inline by (simp add: returns_paragraphNode del: convertInlineChildren.simps)
next
  case (7 cs)
  then show ?case using returns_inline by (simp add: returns_paragraphNode del: convertInlineChildren.simps)
next
  case (8 level cs)
  then show ?case using inline_top [of cs] by (auto simp del: convertInlineChildren.simps)
qed (auto dest!: returnsE simp: convertTable_unfold)

lemma convertChildren_kept: "convertChildren cs = Inr (concat (map kept cs))"
proof (induction cs)
  case Nil
  then show ?case by simp
next
  case (Cons c cs)
  obtain r where "convertNode c = Inr r" using block_returns(1) [of c] returnsE by blast
  with Cons show ?case by (simp add: kept_def)
qed

text \<open>
  Claim C3. For every input \<open>Convert\<close> returns (no type assertion fails) a \<open>doc\<close> node
  of version 1 whose content is the sequence of the converted top-level blocks; when the
  parser yields a document without children, as for the empty input, the content is empty:
  it is the slice \<open>convertChildren\<close> never appended to, which has no elements.
\<close>

theorem Convert_doc:
  "Convert parse markdown =
     Inr [(''version'', AInt 1), (''type'', AString ''doc''),
          (''content'', grown (concat (map kept (childrenOf (parse markdown)))))] \<and>
   (childrenOf (parse []) = [] \<longrightarrow>
      Convert parse [] =
        Inr [(''version'', AInt 1), (''type'', AString ''doc''), (''content'', ANilNodes)] \<and>
      elems ANilNodes = [])"
proof -
  have total: "returns (convertChildren (childrenOf (parse s)))" for s
    by (rule block_returns(2))
  have blocks: "convertChildren (childrenOf (parse s)) =
      Inr (concat (map kept (childrenOf (parse s))))" for s
    by (rule convertChildren_kept)
  have doc: "Convert parse s =
      Inr [(''version'', AInt 1), (''type'', AString ''doc''),
           (''content'', grown (concat (map kept (childrenOf (parse s)))))]" for s
    using total [of s] by (simp add: Convert_def blocks)
  have "Convert parse [] =
      Inr [(''version'', AInt 1), (''type'', AString ''doc''), (''content'', ANilNodes)]"
    if "childrenOf (parse []) = []"
    using doc [of "[]"] that by simp
  moreover have "elems ANilNodes = []" by simp
  ultimately show ?thesis using doc [of markdown] by blast
qed

theorem Convert_doc_witness:
  "childrenOf ((\<lambda>s. Ast KDocument (if s = [] then [] else [Ast KThematicBreak []])) []) = [] \<and>
   Convert (\<lambda>s. Ast KDocument (if s = [] then [] else [Ast KThematicBreak []])) [] =
     Inr [(''version'', AInt 1), (''type'', AString ''doc''), (''content'', ANilNodes)] \<and>
   Convert (\<lambda>s. Ast KDocument (if s = [] then [] else [Ast KThematicBreak []])) ''---'' =
     Inr [(''version'', AInt 1), (''type'', AString ''doc''),
          (''content'', ANodes [[(''type'', AString ''rule'')]])]"
  using Convert_doc [of "\<lambda>s. Ast KDocument (if s = [] then [] else [Ast KThematicBreak []])" "[]"]
    Convert_doc [of "\<lambda>s. Ast KDocument (if s = [] then [] else [Ast KThematicBreak []])" "''---''"]
  by (simp add: kept_def)

text \<open>
  Claim C7. A paragraph (or plain text block) whose converted inline content is empty gives
  no node; a heading always gives a \<open>heading\<close> node with its level and its converted
  inline content, empty or not.
\<close>

theorem paragraph_dropped_heading_kept:
  "(convertInlineChildren cs [] = Inr [] \<longrightarrow>
      convertNode (Ast KParagraph cs) = Inr None \<and> convertNode (Ast KTextBlock cs) = Inr None) \<and>
   (\<exists>content. convertInlineChildren cs [] = Inr content \<and>
      convertNode (Ast (KHeading level) cs) =
        Inr (Some [(''type'', AString ''heading''), (''attrs'', ANode [(''level'', AInt level)]),
                   (''content'', grown content)]))"
  using inline_top [of cs]
  by (auto simp: paragraphNode_def simp del: convertInlineChildren.simps)

theorem paragraph_dropped_heading_kept_witness:
  "convertInlineChildren [Ast (KText [] False False) []] [] = Inr [] \<and>
   convertNode (Ast KParagraph [Ast (KText [] False False) []]) = Inr None \<and>
   convertNode (Ast KTextBlock [Ast (KText [] False False) []]) = Inr None \<and>
   convertNode (Ast (KHeading 2) [Ast (KText [] False False) []]) =
     Inr (Some [(''type'', AString ''heading''), (''attrs'', ANode [(''level'', AInt 2)]),
                (''content'', ANilNodes)])"
proof -
  have empty: "convertInlineChildren [Ast (KText [] False False) []] [] = Inr []"
    by (simp add: thenMerge_def)
  from paragraph_dropped_heading_kept [of "[Ast (KText [] False False) []]" 2] empty
  show ?thesis by auto
qed

lemma unrecognized_convertNode:
  "\<not> recognized k \<Longrightarrow>
   convertNode (Ast k cs) =
     (if cs \<noteq> [] \<and> Type k = TypeBlock then
        (case convertChildren cs of
           Inl e \<Rightarrow> Inl e
         | Inr children \<Rightarrow> if length children > 0 then Inr (Some (children ! 0)) else Inr None)
      else Inr None)"
  by (cases k) (simp_all add: recognized_def)

lemma first_kept:
  "(case concat (map kept cs) of [] \<Rightarrow> Inr None | n # ns \<Rightarrow> Inr (Some n)) =
   (case dropWhile dropped cs of [] \<Rightarrow> Inr None | c # later \<Rightarrow> convertNode c)"
proof (induction cs)
  case Nil
  then show ?case by simp
next
  case (Cons c cs)
  obtain r where r: "convertNode c = Inr r" using block_returns(1) [of c] returnsE by blast
  show ?case
  proof (cases r)
    case None
    with r Cons show ?thesis by (simp add: kept_def dropped_def)
  next
    case (Some n)
    with r show ?thesis by (simp add: kept_def dropped_def)
  qed
qed

text \<open>
  Claim C8. For a block node of a kind the converter does not name, the result is the
  conversion of the first child that is not dropped, the later children being discarded;
  it is nothing when the node has no child or every child is dropped; and it never panics.
\<close>

theorem fallback_first_child:
  "\<not> recognized k \<Longrightarrow> Type k = TypeBlock \<Longrightarrow>
   (\<exists>r. convertNode (Ast k cs) = Inr r) \<and>
   convertNode (Ast k cs) =
     (case dropWhile dropped cs of [] \<Rightarrow> Inr None | c # later \<Rightarrow> convertNode c)"
proof -
  assume k: "\<not> recognized k" "Type k = TypeBlock"
  have total: "\<exists>r. convertNode (Ast k cs) = Inr r"
    using block_returns(1) [of "Ast k cs"] returnsE by blast
  have eq: "convertNode (Ast k cs) =
      (if cs \<noteq> [] then
         (if length (concat (map kept cs)) > 0 then Inr (Some (concat (map kept cs) ! 0))
          else Inr None)
       else Inr None)"
    using k by (simp add: unrecognized_convertNode convertChildren_kept)
  have "convertNode (Ast k cs) =
      (case concat (map kept cs) of [] \<Rightarrow> Inr None | n # ns \<Rightarrow> Inr (Some n))"
  proof (cases "concat (map kept cs)")
    case Nil
    show ?thesis unfolding eq Nil by simp
  next
    case (Cons n ns)
    then have "cs \<noteq> []" by auto
    then show ?thesis unfolding eq Cons by simp
  qed
  with total show ?thesis by (simp only: first_kept)
qed

theorem fallback_first_child_witness:
  "\<not> recognized (KOther TypeBlock) \<and> Type (KOther TypeBlock) = TypeBlock \<and>
   dropWhile dropped [Ast KParagraph [], Ast KThematicBreak [], Ast (KHeading 1) []] =
     [Ast KThematicBreak [], Ast (KHeading 1) []] \<and>
   convertNode (Ast (KOther TypeBlock)
       [Ast KParagraph [], Ast KThematicBreak [], Ast (KHeading 1) []]) =
     Inr (Some [(''type'', AString ''rule'')]) \<and>
   convertNode (Ast (KOther TypeBlock) []) = Inr None \<and>
   convertNode (Ast KListItem [Ast KParagraph []]) = Inr None"
  using fallback_first_child [of "KOther TypeBlock"
      "[Ast KParagraph [], Ast KThematicBreak [], Ast (KHeading 1) []]"]
    fallback_first_child [of "KOther TypeBlock" "[]"]
    fallback_first_child [of KListItem "[Ast KParagraph []]"]
  by (simp add: recognized_def dropped_def paragraphNode_def thenMerge_def)

section \<open>Text leaves, links and autolinks\<close>

text \<open>
  Claim C6. A text run whose literal is empty is skipped as a whole: the \<^verbatim>\<open>continue\<close>
  taken for the empty literal also skips the line break of the run. For the paragraph
  goldmark builds from \<^verbatim>\<open>**a**\<close>, a line end, \<^verbatim>\<open>b\<close> (the soft line break sits on an
  empty text run after the emphasis) no space leaf is produced between the two words.
\<close>

theorem empty_run_drops_break:
  "convertNode (Ast KParagraph
      [Ast (KEmphasis 2) [Ast (KText ''a'' False False) []],
       Ast (KText [] True False) [],
       Ast (KText ''b'' False False) []]) =
   Inr (Some [(''type'', AString ''paragraph''),
              (''content'', ANodes [textLeaf ''a'' [simpleMark ''strong''], textNode ''b''])])"
  by (simp add: paragraphNode_def thenMerge_def textLeaf_def textNode_def simpleMark_def
      mergeable_def isType_def marksEqual_def marksOf_def)

lemma empty_run_skipped:
  "inlineLoop (Ast (KText [] soft hard) cs # rest) marks = inlineLoop rest marks"
  by (cases "inlineLoop rest marks") (simp_all add: appendP_def)

lemma text_run_leaves:
  "literal0 \<noteq> [] \<Longrightarrow>
   inlineLoop (Ast (KText literal0 soft hard) cs # rest) marks =
     appendP
       (Inr ((if marks = [] then textNode literal0
              else AList.update ''marks'' (ANodes marks) (textNode literal0))
             # (if hard then [hardBreak] else if soft then [textNode '' ''] else [])))
       (inlineLoop rest marks)"
  by simp

lemma leavesAll_Inr [simp]: "leavesAll P (Inr ls) = (list_all isLeaf ls \<and> list_all P ls)"
  by (simp add: leavesAll_def)

lemma leavesAll_appendP: "leavesAll P a \<Longrightarrow> leavesAll P b \<Longrightarrow> leavesAll P (appendP a b)"
  by (auto simp: leavesAll_def appendP_def split: sum.splits)

lemma leavesAllE: "leavesAll P r \<Longrightarrow> \<exists>ls. r = Inr ls \<and> list_all isLeaf ls \<and> list_all P ls"
  by (cases r) (simp_all add: leavesAll_def)

lemma run_preserves:
  assumes stable: "\<And>s t ms. P (textLeaf s ms) \<Longrightarrow> P (textLeaf t ms) \<Longrightarrow> P (textLeaf (s @ t) ms)"
  shows "list_all (\<lambda>y. isLeaf y \<and> P y \<and> sameMarks (textLeaf s ms) y) run \<Longrightarrow>
         P (textLeaf s ms) \<Longrightarrow> P (textLeaf (s @ concat (map literal run)) ms)"
proof (induction run arbitrary: s)
  case Nil
  then show ?case by simp
next
  case (Cons y run)
  then have y: "isLeaf y" "P y" "isType ''text'' y" "markList y = ms"
    by (simp_all add: sameMarks_def)
  then have "y = textLeaf (literal y) ms" using isLeaf_text [of y] by simp
  with y(2) Cons.prems(2) have "P (textLeaf (s @ literal y) ms)" using stable by metis
  moreover have "list_all (\<lambda>z. isLeaf z \<and> P z \<and> sameMarks (textLeaf (s @ literal y) ms) z) run"
    using Cons.prems(1) by (simp add: sameMarks_textLeaf)
  ultimately have "P (textLeaf ((s @ literal y) @ concat (map literal run)) ms)"
    by (rule Cons.IH [rotated])
  then show ?case by simp
qed

lemma mergeRuns_preserves:
  assumes stable: "\<And>s t ms. P (textLeaf s ms) \<Longrightarrow> P (textLeaf t ms) \<Longrightarrow> P (textLeaf (s @ t) ms)"
  shows "list_all isLeaf xs \<Longrightarrow> list_all P xs \<Longrightarrow> list_all P (mergeRuns xs)"
proof (induction xs rule: mergeRuns.induct)
  case 1
  then show ?case by simp
next
  case (2 x xs)
  show ?case
  proof (cases "isType ''text'' x")
    case True
    have x: "x = textLeaf (literal x) (markList x)"
      using "2.prems"(1) True isLeaf_text [of x] by simp
    have rest: "list_all isLeaf (dropWhile (sameMarks x) xs)" "list_all P (dropWhile (sameMarks x) xs)"
      using "2.prems" by (auto simp: list_all_iff dest: set_dropWhileD)
    have tail: "list_all P (mergeRuns (dropWhile (sameMarks x) xs))"
      using "2.IH"(1) [OF True rest] .
    have "list_all (\<lambda>y. isLeaf y \<and> P y \<and> sameMarks x y) (takeWhile (sameMarks x) xs)"
      using "2.prems" by (auto simp: list_all_iff dest: set_takeWhileD)
    then have "list_all (\<lambda>y. isLeaf y \<and> P y \<and> sameMarks (textLeaf (literal x) (markList x)) y)
        (takeWhile (sameMarks x) xs)"
      using x by simp
    moreover have "P (textLeaf (literal x) (markList x))" using "2.prems"(2) x by simp
    ultimately have "P (textLeaf (literal x @ concat (map literal (takeWhile (sameMarks x) xs)))
        (markList x))"
      using run_preserves [of P, OF stable] by blast
    with tail True show ?thesis by (simp add: mergeRuns.simps(2))
  next
    case False
    with 2 show ?thesis by (simp add: mergeRuns.simps(2))
  qed
qed

lemma leavesAll_thenMerge:
  assumes stable: "\<And>s t ms. P (textLeaf s ms) \<Longrightarrow> P (textLeaf t ms) \<Longrightarrow> P (textLeaf (s @ t) ms)"
  shows "leavesAll P r \<Longrightarrow> leavesAll P (thenMerge r)"
proof -
  assume "leavesAll P r"
  then obtain ls where ls: "r = Inr ls" "list_all isLeaf ls" "list_all P ls"
    using leavesAllE by blast
  then have "thenMerge r = Inr (mergeRuns ls)"
    by (simp add: thenMerge_def mergeTextNodes_mergeRuns)
  with ls show ?thesis
    using mergeRuns_preserves [of P, OF stable] by (simp add: mergeRuns_leaves)
qed

lemma nonEmptyText_textLeaf [simp]: "nonEmptyText (textLeaf s ms) = (s \<noteq> [])"
  by (simp add: nonEmptyText_def)

lemma nonEmptyText_others [simp]:
  "nonEmptyText hardBreak" "nonEmptyText (inlineCard u)" "nonEmptyText (textNode s) = (s \<noteq> [])"
  by (simp_all add: nonEmptyText_def textNode_textLeaf)

lemma inline_nonEmpty:
  "list_all nonEmptySource cs \<Longrightarrow> list_all isMark marks \<Longrightarrow>
   leavesAll nonEmptyText (convertInlineChildren cs marks)"
  "list_all nonEmptySource cs \<Longrightarrow> list_all isMark marks \<Longrightarrow>
   leavesAll nonEmptyText (inlineLoop cs marks)"
proof (induction cs marks and cs marks rule: convertInlineChildren_inlineLoop.induct)
  case (1 children marks)
  then have "leavesAll nonEmptyText (inlineLoop children marks)" by simp
  then have "leavesAll nonEmptyText (thenMerge (inlineLoop children marks))"
    by (rule leavesAll_thenMerge [rotated]) simp
  then show ?case by simp
qed (auto intro!: leavesAll_appendP simp: marked_textLeaf isLeaf_textLeaf
      simp del: convertInlineChildren.simps)

lemma treeNodes_content:
  "map_of n ''content'' = Some (ANodes cs) \<Longrightarrow> treeNodes n = n # concat (map treeNodes cs)"
  by (subst treeNodes.simps) simp

lemma treeNodes_grown:
  "map_of n ''content'' = Some (grown cs) \<Longrightarrow> treeNodes n = n # concat (map treeNodes cs)"
  by (subst treeNodes.simps) (simp add: grown_def)

lemma treeNodes_leaf: "map_of n ''content'' = None \<Longrightarrow> treeNodes n = [n]"
  by (subst treeNodes.simps) simp

lemma leaf_no_content: "isLeaf l \<Longrightarrow> map_of l ''content'' = None"
proof -
  have "map_of (textLeaf s ms) ''content'' = None" for s ms
    by (simp add: textLeaf_def textNode_def)
  moreover have "map_of hardBreak ''content'' = None" by (simp add: hardBreak_def)
  moreover have "map_of (inlineCard u) ''content'' = None" for u by (simp add: inlineCard_def)
  ultimately show "isLeaf l \<Longrightarrow> map_of l ''content'' = None"
    unfolding isLeaf_def by metis
qed

lemma treeOk_leaf: "isLeaf l \<Longrightarrow> treeOk l = nonEmptyText l"
  by (simp add: treeOk_def treeNodes_leaf leaf_no_content)

lemma treeOk_container:
  "map_of n ''content'' = Some (ANodes cs) \<Longrightarrow> \<not> isType ''text'' n \<Longrightarrow>
   treeOk n = list_all treeOk cs"
  by (simp add: treeOk_def treeNodes_content nonEmptyText_def list_all_iff)

lemma treeOk_container_grown:
  "map_of n ''content'' = Some (grown cs) \<Longrightarrow> \<not> isType ''text'' n \<Longrightarrow>
   treeOk n = list_all treeOk cs"
  by (simp add: treeOk_def treeNodes_grown nonEmptyText_def list_all_iff)

lemma treeOk_leaves: "list_all isLeaf ls \<Longrightarrow> list_all treeOk ls = list_all nonEmptyText ls"
  by (induction ls) (simp_all add: treeOk_leaf)

lemma treeOk_nodes [simp]:
  "treeOk [(''type'', AString ''paragraph''), (''content'', grown cs)] = list_all treeOk cs"
  "treeOk [(''type'', AString ''paragraph''), (''content'', ANodes cs)] = list_all treeOk cs"
  "treeOk [(''type'', AString ''heading''), (''attrs'', a), (''content'', grown cs)] =
     list_all treeOk cs"
  "treeOk [(''type'', AString ''orderedList''), (''content'', grown cs)] = list_all treeOk cs"
  "treeOk [(''type'', AString ''bulletList''), (''content'', grown cs)] = list_all treeOk cs"
  "treeOk [(''type'', AString ''listItem''), (''content'', grown cs)] = list_all treeOk cs"
  "treeOk [(''type'', AString ''blockquote''), (''content'', grown cs)] = list_all treeOk cs"
  "treeOk [(''type'', AString ''tableRow''), (''content'', grown cs)] = list_all treeOk cs"
  "treeOk [(''type'', AString ''table''), (''attrs'', a), (''content'', grown cs)] =
     list_all treeOk cs"
  "treeOk [(''type'', AString ''rule'')]"
  by (simp_all add: treeOk_container treeOk_container_grown isType_def)
     (simp add: treeOk_def treeNodes_leaf nonEmptyText_def isType_def)

lemma treeOk_codeBlock:
  "treeOk (codeBlock lines) = (trimNewline (concat lines) \<noteq> [])"
  "treeOk (AList.update ''attrs'' a (codeBlock lines)) = (trimNewline (concat lines) \<noteq> [])"
  by (simp_all add: codeBlock_def treeOk_container isType_def treeOk_leaf)

lemma treeOk_cell:
  "cellType \<noteq> ''text'' \<Longrightarrow> treeOk (cellNode cellType c) = list_all treeOk (inlineOf c)"
  by (simp add: cellNode_def treeOk_container isType_def)

lemma inlineOf_nonEmpty:
  "list_all nonEmptySource cs \<Longrightarrow> list_all treeOk (inlineOf (Ast k cs))"
proof -
  assume "list_all nonEmptySource cs"
  then have "leavesAll nonEmptyText (convertInlineChildren cs [])"
    using inline_nonEmpty(1) [of cs "[]"] by simp
  then obtain ls where "convertInlineChildren cs [] = Inr ls" "list_all isLeaf ls"
      "list_all nonEmptyText ls"
    using leavesAllE by blast
  then show ?thesis by (simp add: inlineOf_def treeOk_leaves del: convertInlineChildren.simps)
qed

lemma treeOk_row: "list_all nonEmptySource cs \<Longrightarrow> treeOk (rowNode (Ast k cs))"
proof -
  assume src: "list_all nonEmptySource cs"
  have "treeOk (cellNode (if k = KTableHeader then ''tableHeader'' else ''tableCell'') c)"
    if "c \<in> set cs" for c
  proof -
    obtain k' cs' where c: "c = Ast k' cs'" by (cases c)
    with that src have "list_all nonEmptySource cs'" by (auto simp: list_all_iff)
    then show ?thesis using inlineOf_nonEmpty [of cs' k'] by (simp add: treeOk_cell c)
  qed
  then show ?thesis by (simp add: rowNode_def list_all_iff)
qed

lemma treeOk_table: "list_all nonEmptySource rows \<Longrightarrow> treeOk (tableOf rows)"
proof -
  assume src: "list_all nonEmptySource rows"
  have "treeOk (rowNode r)" if "r \<in> set rows" for r
  proof -
    obtain k cs where r: "r = Ast k cs" by (cases r)
    with that src have "list_all nonEmptySource cs" by (auto simp: list_all_iff)
    then show ?thesis using treeOk_row by (simp add: r)
  qed
  then show ?thesis by (simp add: tableOf_def list_all_iff)
qed

lemma okNodes_appendP: "okNodes a \<Longrightarrow> okNodes b \<Longrightarrow> okNodes (appendP a b)"
  by (auto simp: okNodes_def appendP_def split: sum.splits)

lemma okNodes_Inr [simp]: "okNodes (Inr outs) = list_all treeOk outs"
  by (simp add: okNodes_def)

lemma okNode_Inr [simp]:
  "okNode (Inr None)" "okNode (Inr (Some out)) = treeOk out" "\<not> okNode (Inl e)"
  by (simp_all add: okNode_def)

lemma okNodesE: "okNodes r \<Longrightarrow> \<exists>outs. r = Inr outs \<and> list_all treeOk outs"
  by (cases r) (simp_all add: okNodes_def)

lemma okNodeE:
  "okNode r \<Longrightarrow> \<exists>x. r = Inr x \<and> (case x of None \<Rightarrow> True | Some out \<Rightarrow> treeOk out)"
  by (cases r) (simp_all add: okNode_def)

lemma okNode_paragraph:
  "list_all nonEmptySource cs \<Longrightarrow> okNode (paragraphNode (convertInlineChildren cs []))"
  using inlineOf_nonEmpty [of cs KParagraph] inlineOf_eq [of cs KParagraph]
  by (simp add: paragraphNode_def del: convertInlineChildren.simps)

lemma first_ok: "list_all treeOk outs \<Longrightarrow> outs \<noteq> [] \<Longrightarrow> treeOk (outs ! 0)"
  by (cases outs) simp_all

lemma block_nonEmpty:
  "nonEmptySource n \<Longrightarrow> okNode (convertNode n)"
  "list_all nonEmptySource cs \<Longrightarrow> okNodes (convertChildren cs)"
  "list_all nonEmptySource cs \<Longrightarrow> okNodes (convertListItems cs)"
proof (induction n and cs and cs rule: convertNode_convertChildren_convertListItems.induct)
  case (2 child rest)
  then show ?case
    by (auto intro!: okNodes_appendP dest!: okNodeE split: option.splits)
next
  case (4 cs rest)
  then show ?case by (auto intro!: okNodes_appendP dest!: okNodesE)
next
  case (6 cs)
  then show ?case by (simp add: okNode_paragraph del: convertInlineChildren.simps)
next
  case (7 cs)
  then show ?case by (simp add: okNode_paragraph del: convertInlineChildren.simps)
next
  case (8 level cs)
  then show ?case
    using inlineOf_nonEmpty [of cs KParagraph] inlineOf_eq [of cs KParagraph]
    by (simp del: convertInlineChildren.simps)
next
  case (10 lines language cs)
  then show ?case by (simp add: treeOk_codeBlock)
next
  case (11 lines cs)
  then show ?case by (simp add: treeOk_codeBlock)
next
  case (14 cs)
  then show ?case using treeOk_table [of cs] by (simp add: convertTable_unfold tableOf_def)
qed (auto dest!: okNodesE simp: first_ok)

lemma underLink_textLeaf:
  "underLink d (textLeaf s ms) =
     (linkMark d \<in> set ms \<or> (ms = [] \<and> list_all (\<lambda>c. c = CHR '' '') s))"
proof -
  have "textLeaf s ms \<noteq> hardBreak" "textLeaf s ms \<noteq> inlineCard u" for u
    using textLeaf_simps(1) [of s ms] not_text_leaves by metis+
  then show ?thesis by (auto simp: underLink_def linked_def blank_def)
qed

lemma underLink_others [simp]:
  "underLink d hardBreak" "underLink d (inlineCard u)" "underLink d (textNode '' '')"
  by (simp_all add: underLink_def textNode_textLeaf blank_def)

lemma inline_underLink:
  "linkMark d \<in> set marks \<Longrightarrow> list_all isMark marks \<Longrightarrow>
   leavesAll (underLink d) (convertInlineChildren cs marks)"
  "linkMark d \<in> set marks \<Longrightarrow> list_all isMark marks \<Longrightarrow>
   leavesAll (underLink d) (inlineLoop cs marks)"
proof (induction cs marks and cs marks rule: convertInlineChildren_inlineLoop.induct)
  case (1 children marks)
  then have "leavesAll (underLink d) (inlineLoop children marks)" by simp
  then have "leavesAll (underLink d) (thenMerge (inlineLoop children marks))"
    by (rule leavesAll_thenMerge [rotated]) (auto simp: underLink_textLeaf)
  then show ?case by simp
next
  case (3 literal0 soft hard cs rest marks)
  then have "marks \<noteq> []" by auto
  with 3 show ?case
    by (auto intro!: leavesAll_appendP simp: marked_textLeaf isLeaf_textLeaf underLink_textLeaf)
qed (auto intro!: leavesAll_appendP simp: marked_textLeaf isLeaf_textLeaf underLink_textLeaf
      simp del: convertInlineChildren.simps)

lemma noCard_simps [simp]: "noCard (textLeaf s ms)" "noCard hardBreak" "noCard (textNode s)"
  by (simp_all add: noCard_def isType_def textLeaf_def textNode_def hardBreak_def)

lemma inline_noCard:
  "list_all noAutoLink cs \<Longrightarrow> list_all isMark marks \<Longrightarrow>
   leavesAll noCard (convertInlineChildren cs marks)"
  "list_all noAutoLink cs \<Longrightarrow> list_all isMark marks \<Longrightarrow>
   leavesAll noCard (inlineLoop cs marks)"
proof (induction cs marks and cs marks rule: convertInlineChildren_inlineLoop.induct)
  case (1 children marks)
  then have "leavesAll noCard (inlineLoop children marks)" by simp
  then have "leavesAll noCard (thenMerge (inlineLoop children marks))"
    by (rule leavesAll_thenMerge [rotated]) simp
  then show ?case by simp
qed (auto intro!: leavesAll_appendP simp: marked_textLeaf isLeaf_textLeaf
      simp del: convertInlineChildren.simps)

lemma appendP_Nil [simp]: "appendP r (Inr []) = r"
  by (cases r) (simp_all add: appendP_def)

text \<open>
  Links and URL autolinks. Every leaf produced for an explicit link is a text leaf carrying
  the link mark with the link's destination, apart from the leaves that stand for a line
  break inside the link text (the unmarked space of a soft line break, the hard break) and
  the card of an autolink nested in the link; without an autolink below the link no
  \<open>inlineCard\<close> is produced. A URL autolink gives exactly one \<open>inlineCard\<close> with its URL.
  Neither depends on the text of the destination or URL.
\<close>

lemma link_marks_autolink_card:
  "(list_all isMark marks \<longrightarrow>
      (\<exists>ls. convertInlineChildren [Ast (KLink destination) cs] marks = Inr ls \<and>
            list_all (underLink destination) ls \<and>
            (list_all noAutoLink cs \<longrightarrow> list_all noCard ls))) \<and>
   convertInlineChildren [Ast (KAutoLink AutoLinkURL url) cs'] marks' = Inr [inlineCard url]"
proof (intro conjI impI)
  assume marks: "list_all isMark marks"
  let ?inner = "convertInlineChildren cs (copyMarks marks @ [linkMark destination])"
  have outer: "convertInlineChildren [Ast (KLink destination) cs] marks = thenMerge ?inner"
    by (simp del: convertInlineChildren.simps) simp
  have "leavesAll (underLink destination) ?inner"
    using marks by (intro inline_underLink) simp_all
  then have under: "leavesAll (underLink destination) (thenMerge ?inner)"
    by (rule leavesAll_thenMerge [rotated]) (auto simp: underLink_textLeaf)
  then obtain ls where ls: "thenMerge ?inner = Inr ls" "list_all (underLink destination) ls"
    using leavesAllE by blast
  have "list_all noCard ls" if "list_all noAutoLink cs"
  proof -
    have "leavesAll noCard ?inner" using that marks by (intro inline_noCard) simp_all
    then have "leavesAll noCard (thenMerge ?inner)"
      by (rule leavesAll_thenMerge [rotated]) simp
    with ls(1) show ?thesis by simp
  qed
  with ls outer
  show "\<exists>ls. convertInlineChildren [Ast (KLink destination) cs] marks = Inr ls \<and>
      list_all (underLink destination) ls \<and> (list_all noAutoLink cs \<longrightarrow> list_all noCard ls)"
    by (simp del: convertInlineChildren.simps)
next
  show "convertInlineChildren [Ast (KAutoLink AutoLinkURL url) cs'] marks' = Inr [inlineCard url]"
    by (simp add: thenMerge_def)
qed

lemma link_marks_autolink_card_example:
  "list_all isMark [] \<and>
   convertInlineChildren
     [Ast (KLink ''u'') [Ast (KText ''a'' True False) [], Ast (KText ''b'' False False) []]] [] =
     Inr [textLeaf ''a'' [linkMark ''u''], textNode '' '', textLeaf ''b'' [linkMark ''u'']] \<and>
   list_all (underLink ''u'')
     [textLeaf ''a'' [linkMark ''u''], textNode '' '', textLeaf ''b'' [linkMark ''u'']] \<and>
   list_all noAutoLink [Ast (KText ''a'' True False) [], Ast (KText ''b'' False False) []] \<and>
   list_all noCard
     [textLeaf ''a'' [linkMark ''u''], textNode '' '', textLeaf ''b'' [linkMark ''u'']] \<and>
   convertInlineChildren [Ast (KAutoLink AutoLinkURL ''https://x.y'') []] [] =
     Inr [inlineCard ''https://x.y'']"
proof -
  have run: "convertInlineChildren
     [Ast (KLink ''u'') [Ast (KText ''a'' True False) [], Ast (KText ''b'' False False) []]] [] =
     Inr [textLeaf ''a'' [linkMark ''u''], textNode '' '', textLeaf ''b'' [linkMark ''u'']]"
    by (simp add: thenMerge_def textLeaf_def textNode_def linkMark_def mergeable_def isType_def
        marksEqual_def marksOf_def)
  have src: "list_all noAutoLink [Ast (KText ''a'' True False) [], Ast (KText ''b'' False False) []]"
    by simp
  from link_marks_autolink_card
    [of "[]" "''u''" "[Ast (KText ''a'' True False) [], Ast (KText ''b'' False False) []]"
      "''https://x.y''" "[]" "[]"]
  show ?thesis unfolding run using src by simp
qed

lemma link_soft_break_space:
  "convertInlineChildren
     [Ast (KLink ''u'') [Ast (KText ''a'' True False) [], Ast (KText ''b'' False False) []]] [] =
     Inr [textLeaf ''a'' [linkMark ''u''], textNode '' '', textLeaf ''b'' [linkMark ''u'']] \<and>
   \<not> linked ''u'' (textNode '' '')"
  by (simp add: thenMerge_def textLeaf_def textNode_def linkMark_def mergeable_def isType_def
      marksEqual_def marksOf_def linked_def markList_def)

text \<open>
  Claim C1. An email autolink is not converted to a text leaf with a link mark: the
  \<open>AutoLink\<close> case never reads the autolink type, so it becomes an \<open>inlineCard\<close> like a
  URL autolink. For the paragraph goldmark builds from
  \<^verbatim>\<open>Contact <user@example.com> for help\<close> the content is a text leaf, a card whose url
  is the address, and a text leaf.
\<close>

theorem email_autolink_becomes_card:
  "convertNode (Ast KParagraph
      [Ast (KText ''Contact '' False False) [],
       Ast (KAutoLink AutoLinkEmail ''user@example.com'') [],
       Ast (KText '' for help'' False False) []]) =
   Inr (Some [(''type'', AString ''paragraph''),
              (''content'', ANodes
                 [textNode ''Contact '',
                  [(''type'', AString ''inlineCard''),
                   (''attrs'', ANode [(''url'', AString ''user@example.com'')])],
                  textNode '' for help''])])"
  by (simp add: paragraphNode_def thenMerge_def textNode_def inlineCard_def mergeable_def
      isType_def)

lemma treeOk_doc:
  "treeOk [(''version'', v), (''type'', AString ''doc''), (''content'', grown cs)] =
     list_all treeOk cs"
  by (simp add: treeOk_container_grown isType_def)

text \<open>
  Claim C2, as amended. When no code span of the source has an empty text, no image has an
  empty alt text and destination, and no code block is empty once its trailing newline is
  stripped, every text leaf of the output tree holds a non-empty string; a text run with
  an empty literal is dropped.
\<close>

theorem text_leaves_nonempty:
  "(list_all nonEmptySource (childrenOf (parse markdown)) \<longrightarrow>
      (\<exists>doc. Convert parse markdown = Inr doc \<and> treeOk doc)) \<and>
   inlineLoop (Ast (KText [] soft hard) cs # rest) marks = inlineLoop rest marks"
proof (intro conjI impI)
  assume "list_all nonEmptySource (childrenOf (parse markdown))"
  then have "okNodes (convertChildren (childrenOf (parse markdown)))" by (rule block_nonEmpty(2))
  then obtain outs where "convertChildren (childrenOf (parse markdown)) = Inr outs"
      "list_all treeOk outs"
    using okNodesE by blast
  then show "\<exists>doc. Convert parse markdown = Inr doc \<and> treeOk doc"
    by (simp add: Convert_def treeOk_doc)
next
  show "inlineLoop (Ast (KText [] soft hard) cs # rest) marks = inlineLoop rest marks"
    by (rule empty_run_skipped)
qed

theorem text_leaves_nonempty_witness:
  "list_all nonEmptySource
     (childrenOf ((\<lambda>s. Ast KDocument
        [Ast KParagraph [Ast (KText [] False False) [], Ast (KText ''x'' False False) []],
         Ast (KCodeBlock [''y'']) []]) ''x'')) \<and>
   Convert (\<lambda>s. Ast KDocument
        [Ast KParagraph [Ast (KText [] False False) [], Ast (KText ''x'' False False) []],
         Ast (KCodeBlock [''y'']) []]) ''x'' =
     Inr [(''version'', AInt 1), (''type'', AString ''doc''),
          (''content'', ANodes
             [[(''type'', AString ''paragraph''), (''content'', ANodes [textNode ''x''])],
              codeBlock [''y'']])] \<and>
   treeOk [(''version'', AInt 1), (''type'', AString ''doc''),
          (''content'', ANodes
             [[(''type'', AString ''paragraph''), (''content'', ANodes [textNode ''x''])],
              codeBlock [''y'']])]"
proof -
  let ?parse = "\<lambda>s::string. Ast KDocument
        [Ast KParagraph [Ast (KText [] False False) [], Ast (KText ''x'' False False) []],
         Ast (KCodeBlock [''y'']) []]"
  have src: "list_all nonEmptySource (childrenOf (?parse ''x''))"
    by (simp add: trimNewline_def)
  have run: "Convert ?parse ''x'' =
     Inr [(''version'', AInt 1), (''type'', AString ''doc''),
          (''content'', ANodes
             [[(''type'', AString ''paragraph''), (''content'', ANodes [textNode ''x''])],
              codeBlock [''y'']])]"
    by (simp add: Convert_def paragraphNode_def thenMerge_def)
  from text_leaves_nonempty [of ?parse "''x''"] src obtain doc where
    "Convert ?parse ''x'' = Inr doc" "treeOk doc" by blast
  with run src show ?thesis by simp
qed

text \<open>
  Claim C2 as it is stated fails: the text leaf of an empty fenced code block holds the
  empty string.
\<close>

theorem empty_code_block_empty_text:
  "convertNode (Ast (KFencedCodeBlock [] []) []) =
     Inr (Some [(''type'', AString ''codeBlock''),
                (''content'', ANodes [[(''type'', AString ''text''), (''text'', AString [])]])]) \<and>
   treeNodes [(''type'', AString ''codeBlock''),
              (''content'', ANodes [[(''type'', AString ''text''), (''text'', AString [])]])] =
     [[(''type'', AString ''codeBlock''),
       (''content'', ANodes [[(''type'', AString ''text''), (''text'', AString [])]])],
      [(''type'', AString ''text''), (''text'', AString [])]] \<and>
   isType ''text'' [(''type'', AString ''text''), (''text'', AString [])] \<and>
   textOf [(''type'', AString ''text''), (''text'', AString [])] = Some []"
  by (simp add: codeBlock_def trimNewline_def textNode_def treeNodes_content treeNodes_leaf
      isType_def textOf_def)

section \<open>Mark lists are copied, not shared\<close>

lemma extends_iff: "extends h h' \<longleftrightarrow> (\<exists>t. h' = h @ t)"
  unfolding extends_def
  by (metis append_eq_conv_conj append_take_drop_id)

lemma extends_refl [simp]: "extends h h"
  by (simp add: extends_def)

lemma extends_append [simp]: "extends h (h @ t)"
  by (simp add: extends_def)

lemma extends_trans: "extends h h1 \<Longrightarrow> extends h1 h2 \<Longrightarrow> extends h h2"
  by (auto simp: extends_iff)

lemma extends_nth: "extends h h' \<Longrightarrow> a < length h \<Longrightarrow> h' ! a = h ! a"
  by (auto simp: extends_iff nth_append)

lemma extends_length: "extends h h' \<Longrightarrow> length h \<le> length h'"
  by (auto simp: extends_iff)

lemma validSlice_extends:
  "validSlice h s \<Longrightarrow> extends h h' \<Longrightarrow> validSlice h' s \<and> readSlice h' s = readSlice h s"
  using extends_length [of h h']
  by (cases s) (auto simp: validSlice_def readSlice_def extends_nth)

lemma sliceValue_extends:
  "validSlice h s \<Longrightarrow> extends h h' \<Longrightarrow> sliceValue h' s = sliceValue h s"
  by (cases s) (auto simp: validSlice_def sliceValue_def extends_nth)

lemma sliceValue_read: "s \<noteq> NilSlice \<Longrightarrow> sliceValue h s = ANodes (readSlice h s)"
  by (cases s) (simp_all add: sliceValue_def readSlice_def)

lemma validNode_extends:
  "validNode h l \<Longrightarrow> extends h h' \<Longrightarrow> validNode h' l \<and> deref h' l = deref h l"
  using validSlice_extends [of h _ h'] sliceValue_extends [of h _ h']
  by (auto simp: validNode_def deref_def split: option.splits)

lemma validNodes_extends:
  "list_all (validNode h) ls \<Longrightarrow> extends h h' \<Longrightarrow>
   list_all (validNode h') ls \<and> map (deref h') ls = map (deref h) ls"
  by (induction ls) (auto dest: validNode_extends)

lemma lenSlice_read: "validSlice h s \<Longrightarrow> lenSlice s = length (readSlice h s)"
  by (cases s) (auto simp: validSlice_def readSlice_def lenSlice_def)

lemma copyMarksH_ok:
  "validSlice h marks \<Longrightarrow> copyMarksH marks h = (c, h1) \<Longrightarrow>
   extends h h1 \<and> validSlice h1 c \<and> readSlice h1 c = readSlice h marks \<and>
   (case c of NilSlice \<Rightarrow> True | Slice a n \<Rightarrow> n = length (h1 ! a))"
  by (cases marks) (auto simp: copyMarksH_def validSlice_def readSlice_def nth_append)

lemma appendH_full:
  "validSlice h1 c \<Longrightarrow> (case c of NilSlice \<Rightarrow> True | Slice a n \<Rightarrow> n = length (h1 ! a)) \<Longrightarrow>
   appendH grow c x h1 = (nm, h2) \<Longrightarrow>
   extends h1 h2 \<and> validSlice h2 nm \<and> readSlice h2 nm = readSlice h1 c @ [x]"
  by (cases c) (auto simp: appendH_def validSlice_def readSlice_def nth_append)

lemma copyMarksH_nonnil:
  "copyMarksH marks h = (c, h1) \<Longrightarrow> 0 < lenSlice marks \<Longrightarrow> c \<noteq> NilSlice"
  by (cases marks) (auto simp: copyMarksH_def lenSlice_def)

lemma extendH_nonnil: "extendH grow marks x h = (nm, h2) \<Longrightarrow> nm \<noteq> NilSlice"
  by (cases marks)
     (auto simp: extendH_def copyMarksH_def appendH_def split: if_splits)

lemma extendH_ok:
  assumes "validSlice h marks" "extendH grow marks x h = (nm, h2)"
  shows "extends h h2 \<and> validSlice h2 nm \<and> readSlice h2 nm = readSlice h marks @ [x]"
proof -
  obtain c h1 where c: "copyMarksH marks h = (c, h1)" by (cases "copyMarksH marks h")
  with assms(2) have a: "appendH grow c x h1 = (nm, h2)" by (simp add: extendH_def)
  from copyMarksH_ok [OF assms(1) c] appendH_full [OF _ _ a]
  show ?thesis by (auto intro: extends_trans)
qed

lemma derefAll_simps [simp]:
  "derefAll h (Inl e) = Inl e" "derefAll h (Inr ls) = Inr (map (deref h) ls)"
  by (simp_all add: derefAll_def)

lemma update_commute:
  "k \<noteq> k' \<Longrightarrow> map_of n k \<noteq> None \<Longrightarrow>
   AList.update k v (AList.update k' v' n) = AList.update k' v' (AList.update k v n)"
  by (induction n) auto

lemma deref_update_text:
  "textOf (deref h l) = Some s \<Longrightarrow>
   deref h (AList.update ''text'' v (fst l), snd l) = AList.update ''text'' v (deref h l)"
proof (cases "snd l")
  case None
  then show ?thesis by (simp add: deref_def)
next
  case (Some sl)
  assume "textOf (deref h l) = Some s"
  with Some have "map_of (fst l) ''text'' \<noteq> None"
    by (auto simp: deref_def textOf_def update_conv' split: option.splits)
  with Some show ?thesis
    by (simp add: deref_def update_commute [of "''text''" "''marks''"])
qed

lemma validNode_update_text [simp]:
  "validNode h (n', snd l) = validNode h l"
  by (simp add: validNode_def)

lemma mergeLoopH_sim:
  "merged \<noteq> [] \<Longrightarrow>
   derefAll h (mergeLoopH h merged rest) =
     mergeLoop (map (deref h) merged) (map (deref h) rest)"
proof (induction rest arbitrary: merged)
  case Nil
  then show ?case by simp
next
  case (Cons node rest)
  let ?prev = "last merged"
  have last: "last (map (deref h) merged) = deref h ?prev"
    using Cons.prems by (simp add: last_map)
  show ?case
  proof (cases "mergeable (deref h ?prev) (deref h node)")
    case False
    then show ?thesis using Cons.IH [of "merged @ [node]"] last by simp
  next
    case True
    show ?thesis
    proof (cases "textOf (deref h ?prev)")
      case None
      with True last show ?thesis by simp
    next
      case (Some s)
      show ?thesis
      proof (cases "textOf (deref h node)")
        case None
        with True Some last show ?thesis by simp
      next
        case t: (Some t)
        let ?m = "merged[length merged - 1 :=
            (AList.update ''text'' (AString (s @ t)) (fst ?prev), snd ?prev)]"
        have "?m \<noteq> []" using Cons.prems by simp
        from Cons.IH [OF this]
        have "derefAll h (mergeLoopH h ?m rest) =
            mergeLoop (map (deref h) ?m) (map (deref h) rest)" .
        moreover have "map (deref h) ?m =
            (map (deref h) merged)[length (map (deref h) merged) - 1 :=
              AList.update ''text'' (AString (s @ t)) (deref h ?prev)]"
          using deref_update_text [OF Some] by (simp add: map_update)
        ultimately show ?thesis using True Some t last by (simp add: Let_def)
      qed
    qed
  qed
qed

lemma mergeTextNodesH_sim:
  "derefAll h (mergeTextNodesH h ls) = mergeTextNodes (map (deref h) ls)"
proof (cases "(h, ls)" rule: mergeTextNodesH.cases)
  case (3 h' n node rest)
  then show ?thesis using mergeLoopH_sim [of "[n]" h "node # rest"] by simp
qed simp_all

lemma mergeLoopH_valid:
  "list_all (validNode h) merged \<Longrightarrow> list_all (validNode h) rest \<Longrightarrow> merged \<noteq> [] \<Longrightarrow>
   mergeLoopH h merged rest = Inr ms \<Longrightarrow> list_all (validNode h) ms"
proof (induction rest arbitrary: merged)
  case Nil
  then show ?case by simp
next
  case (Cons node rest)
  have lastv: "validNode h (last merged)"
    using Cons.prems(1,3) by (simp add: list_all_iff)
  show ?case
  proof (cases "mergeable (deref h (last merged)) (deref h node)")
    case False
    with Cons.prems have "mergeLoopH h (merged @ [node]) rest = Inr ms" by simp
    moreover have "list_all (validNode h) (merged @ [node])" using Cons.prems by simp
    ultimately show ?thesis using Cons.IH [of "merged @ [node]"] Cons.prems(2) by simp
  next
    case True
    with Cons.prems(4) obtain s t where
      run: "mergeLoopH h (merged[length merged - 1 :=
          (AList.update ''text'' (AString (s @ t)) (fst (last merged)), snd (last merged))]) rest
        = Inr ms"
      by (auto simp: Let_def split: option.splits)
    have "list_all (validNode h) (merged[length merged - 1 :=
          (AList.update ''text'' (AString (s @ t)) (fst (last merged)), snd (last merged))])"
      using Cons.prems(1) lastv
      by (auto simp: list_all_iff dest!: set_update_subset_insert [THEN subsetD])
    from Cons.IH [OF this _ _ run] Cons.prems(2,3) show ?thesis by simp
  qed
qed

lemma mergeTextNodesH_valid:
  "list_all (validNode h) ls \<Longrightarrow> mergeTextNodesH h ls = Inr ms \<Longrightarrow> list_all (validNode h) ms"
proof (cases "(h, ls)" rule: mergeTextNodesH.cases)
  case (3 h' n node rest)
  assume "list_all (validNode h) ls" "mergeTextNodesH h ls = Inr ms"
  with 3 mergeLoopH_valid [of h "[n]" "node # rest" ms] show ?thesis by simp
qed auto

lemma sim_thenMergeH: "sim h r p \<Longrightarrow> sim h (thenMergeH r) (thenMerge p)"
proof (cases r)
  case (Inl e)
  assume "sim h r p"
  with Inl show ?thesis by (simp add: sim_def thenMergeH_def thenMerge_def)
next
  case (Inr x)
  obtain ls h' where x: "x = (ls, h')" by (cases x)
  assume "sim h r p"
  with Inr x have s: "extends h h'" "list_all (validNode h') ls" "p = Inr (map (deref h') ls)"
    by (simp_all add: sim_def)
  show ?thesis
  proof (cases "mergeTextNodesH h' ls")
    case (Inl e)
    with mergeTextNodesH_sim [of h' ls] have "mergeTextNodes (map (deref h') ls) = Inl e" by simp
    with Inl Inr x s show ?thesis by (simp add: sim_def thenMergeH_def thenMerge_def)
  next
    case ms: (Inr ms)
    with mergeTextNodesH_sim [of h' ls]
    have "mergeTextNodes (map (deref h') ls) = Inr (map (deref h') ms)" by simp
    moreover have "list_all (validNode h') ms" using mergeTextNodesH_valid [OF s(2) ms] .
    ultimately show ?thesis using ms Inr x s by (simp add: sim_def thenMergeH_def thenMerge_def)
  qed
qed

lemma sim_leaves:
  assumes "extends h h1" "list_all (validNode h1) ls0" "sim h1 r p"
  shows "sim h (consH ls0 r) (appendP (Inr (map (deref h1) ls0)) p)"
proof (cases r)
  case (Inl e)
  with assms show ?thesis by (simp add: sim_def consH_def appendP_def)
next
  case (Inr x)
  obtain ls h' where x: "x = (ls, h')" by (cases x)
  with Inr assms(3) have s: "extends h1 h'" "list_all (validNode h') ls"
      "p = Inr (map (deref h') ls)"
    by (simp_all add: sim_def)
  from validNodes_extends [OF assms(2) s(1)] s assms(1) Inr x
  show ?thesis by (auto simp: sim_def consH_def appendP_def intro: extends_trans)
qed

lemma sim_nested:
  assumes "extends h h2" "sim h2 r p"
    and "\<And>ls h3. r = Inr (ls, h3) \<Longrightarrow> sim h3 (k h3) q"
  shows "sim h (case r of Inl e \<Rightarrow> Inl e | Inr (ls, h3) \<Rightarrow> consH ls (k h3)) (appendP p q)"
proof (cases r)
  case (Inl e)
  with assms(2) show ?thesis by (simp add: sim_def appendP_def)
next
  case (Inr x)
  obtain ls h3 where x: "x = (ls, h3)" by (cases x)
  with Inr assms(2) have s: "extends h2 h3" "list_all (validNode h3) ls"
      "p = Inr (map (deref h3) ls)"
    by (simp_all add: sim_def)
  have "sim h3 (k h3) q" using assms(3) Inr x by simp
  from sim_leaves [OF extends_refl s(2) this] s(3)
  have "sim h3 (consH ls (k h3)) (appendP p q)" by simp
  then have "sim h (consH ls (k h3)) (appendP p q)"
    using assms(1) s(1) by (auto simp: sim_def intro: extends_trans split: sum.splits)
  with Inr x show ?thesis by simp
qed

lemma deref_plain [simp]: "deref h (n, None) = n"
  by (simp add: deref_def)

lemma deref_marked [simp]:
  "s \<noteq> NilSlice \<Longrightarrow> deref h (n, Some s) = AList.update ''marks'' (ANodes (readSlice h s)) n"
  by (simp add: deref_def sliceValue_read)

lemma validNode_simps [simp]:
  "validNode h (n, None)" "validNode h (n, Some s) = validSlice h s"
  by (simp_all add: validNode_def)

lemma sim_Nil [simp]: "sim h (Inr ([], h)) (Inr [])"
  by (simp add: sim_def)

lemma breakH_plain:
  "list_all (validNode h) (breakH soft hard)"
  "map (deref h) (breakH soft hard) =
     (if hard then [hardBreak] else if soft then [textNode '' ''] else [])"
  by (simp_all add: breakH_def)

lemma step_nested:
  assumes v: "validSlice h marks"
    and e: "extendH grow marks x h = (nm, h2)"
    and ih1: "validSlice h2 nm \<Longrightarrow>
      sim h2 (convertInlineChildrenH grow cs nm h2) (convertInlineChildren cs (readSlice h2 nm))"
    and ih2: "\<And>ls h3. convertInlineChildrenH grow cs nm h2 = Inr (ls, h3) \<Longrightarrow>
      validSlice h3 marks \<Longrightarrow>
      sim h3 (inlineLoopH grow rest marks h3) (inlineLoop rest (readSlice h3 marks))"
  shows "sim h
     (case convertInlineChildrenH grow cs nm h2 of
        Inl e \<Rightarrow> Inl e
      | Inr (ls, h3) \<Rightarrow> consH ls (inlineLoopH grow rest marks h3))
     (appendP (convertInlineChildren cs (readSlice h marks @ [x]))
        (inlineLoop rest (readSlice h marks)))"
proof -
  from extendH_ok [OF v e] have ext: "extends h h2" and vn: "validSlice h2 nm"
    and rd: "readSlice h2 nm = readSlice h marks @ [x]" by simp_all
  have inner: "sim h2 (convertInlineChildrenH grow cs nm h2)
      (convertInlineChildren cs (readSlice h marks @ [x]))"
    using ih1 [OF vn] rd by simp
  show ?thesis
  proof (rule sim_nested [OF ext inner, of "\<lambda>h3. inlineLoopH grow rest marks h3"])
    fix ls h3
    assume r: "convertInlineChildrenH grow cs nm h2 = Inr (ls, h3)"
    with inner have "extends h2 h3" by (simp add: sim_def)
    with ext have "extends h h3" by (rule extends_trans)
    from validSlice_extends [OF v this] ih2 [OF r]
    show "sim h3 (inlineLoopH grow rest marks h3) (inlineLoop rest (readSlice h marks))"
      by simp
  qed
qed

lemma step_default:
  assumes v: "validSlice h marks"
    and ih1: "cs \<noteq> [] \<Longrightarrow> validSlice h marks \<Longrightarrow>
      sim h (convertInlineChildrenH grow cs marks h) (convertInlineChildren cs (readSlice h marks))"
    and ih2: "\<And>b ls h3. cs \<noteq> [] \<Longrightarrow> convertInlineChildrenH grow cs marks h = Inr b \<Longrightarrow>
      (ls, h3) = b \<Longrightarrow> validSlice h3 marks \<Longrightarrow>
      sim h3 (inlineLoopH grow rest marks h3) (inlineLoop rest (readSlice h3 marks))"
    and ih3: "\<not> cs \<noteq> [] \<Longrightarrow> validSlice h marks \<Longrightarrow>
      sim h (inlineLoopH grow rest marks h) (inlineLoop rest (readSlice h marks))"
  shows "sim h
     (if cs \<noteq> [] then
        (case convertInlineChildrenH grow cs marks h of
           Inl e \<Rightarrow> Inl e
         | Inr (ls, h3) \<Rightarrow> consH ls (inlineLoopH grow rest marks h3))
      else inlineLoopH grow rest marks h)
     (appendP (if cs \<noteq> [] then convertInlineChildren cs (readSlice h marks) else Inr [])
        (inlineLoop rest (readSlice h marks)))"
proof (cases "cs \<noteq> []")
  case False
  have "appendP (Inr []) p = p" for p :: "panic + Node list"
    by (cases p) (simp_all add: appendP_def)
  with False ih3 [OF False v] show ?thesis by simp
next
  case True
  have inner: "sim h (convertInlineChildrenH grow cs marks h)
      (convertInlineChildren cs (readSlice h marks))"
    using ih1 [OF True v] .
  have "sim h
     (case convertInlineChildrenH grow cs marks h of
        Inl e \<Rightarrow> Inl e
      | Inr (ls, h3) \<Rightarrow> consH ls (inlineLoopH grow rest marks h3))
     (appendP (convertInlineChildren cs (readSlice h marks)) (inlineLoop rest (readSlice h marks)))"
  proof (rule sim_nested [OF extends_refl inner, of "\<lambda>h3. inlineLoopH grow rest marks h3"])
    fix ls h3
    assume r: "convertInlineChildrenH grow cs marks h = Inr (ls, h3)"
    with inner have "extends h h3" by (simp add: sim_def)
    from validSlice_extends [OF v this] ih2 [OF True r refl]
    show "sim h3 (inlineLoopH grow rest marks h3) (inlineLoop rest (readSlice h marks))"
      by simp
  qed
  with True show ?thesis by simp
qed

lemma step_marked_leaf:
  assumes v: "validSlice h marks"
    and e: "extendH grow marks x h = (nm, h2)"
    and ih: "validSlice h2 marks \<Longrightarrow>
      sim h2 (inlineLoopH grow rest marks h2) (inlineLoop rest (readSlice h2 marks))"
  shows "sim h (consH [(n, Some nm)] (inlineLoopH grow rest marks h2))
     (appendP (Inr [AList.update ''marks'' (ANodes (readSlice h marks @ [x])) n])
        (inlineLoop rest (readSlice h marks)))"
proof -
  from extendH_ok [OF v e] have ext: "extends h h2" and vn: "validSlice h2 nm"
    and rd: "readSlice h2 nm = readSlice h marks @ [x]" by simp_all
  from validSlice_extends [OF v ext] ih
  have "sim h2 (inlineLoopH grow rest marks h2) (inlineLoop rest (readSlice h marks))" by simp
  from sim_leaves [OF ext _ this, of "[(n, Some nm)]"] vn rd extendH_nonnil [OF e]
  show ?thesis by simp
qed

lemma step_text:
  assumes v: "validSlice h marks"
    and c: "copyMarksH marks h = (c, h1)"
    and ih: "validSlice h1 marks \<Longrightarrow>
      sim h1 (inlineLoopH grow rest marks h1) (inlineLoop rest (readSlice h1 marks))"
    and nz: "0 < lenSlice marks"
  shows "sim h (consH ((n, Some c) # breakH soft hard) (inlineLoopH grow rest marks h1))
     (appendP
        (Inr (AList.update ''marks'' (ANodes (readSlice h marks)) n
              # (if hard then [hardBreak] else if soft then [textNode '' ''] else [])))
        (inlineLoop rest (readSlice h marks)))"
proof -
  from copyMarksH_ok [OF v c] have ext: "extends h h1" and vc: "validSlice h1 c"
    and rd: "readSlice h1 c = readSlice h marks" by simp_all
  from validSlice_extends [OF v ext] ih
  have "sim h1 (inlineLoopH grow rest marks h1) (inlineLoop rest (readSlice h marks))" by simp
  from sim_leaves [OF ext _ this, of "(n, Some c) # breakH soft hard"] vc rd
    copyMarksH_nonnil [OF c nz]
  show ?thesis by (simp add: breakH_plain)
qed

lemma step_plain:
  assumes "sim h (inlineLoopH grow rest marks h) (inlineLoop rest (readSlice h marks))"
    and "list_all (\<lambda>l. snd l = None) ls0"
  shows "sim h (consH ls0 (inlineLoopH grow rest marks h))
     (appendP (Inr (map fst ls0)) (inlineLoop rest (readSlice h marks)))"
proof -
  have "list_all (validNode h) ls0" "map (deref h) ls0 = map fst ls0"
    using assms(2) by (induction ls0) (auto simp: validNode_def deref_def)
  with sim_leaves [OF extends_refl _ assms(1), of ls0] show ?thesis by simp
qed

lemma inline_sim:
  "validSlice h marks \<Longrightarrow>
   sim h (convertInlineChildrenH grow cs marks h) (convertInlineChildren cs (readSlice h marks))"
  "validSlice h marks \<Longrightarrow>
   sim h (inlineLoopH grow cs marks h) (inlineLoop cs (readSlice h marks))"
proof (induction grow cs marks h and grow cs marks h
    rule: convertInlineChildrenH_inlineLoopH.induct)
  case (1 grow children marks h)
  then show ?case by (simp add: sim_thenMergeH)
next
  case (2 grow marks h)
  show ?case by simp
next
  case (3 grow literal0 soft hard cs rest marks h)
  show ?case
  proof (cases "literal0 = []")
    case True
    have "appendP (Inr []) p = p" for p :: "panic + Node list"
      by (cases p) (simp_all add: appendP_def)
    with True "3.IH"(1) "3.prems" show ?thesis by simp
  next
    case False
    show ?thesis
    proof (cases "0 < lenSlice marks")
      case True
      obtain c h1 where c: "copyMarksH marks h = (c, h1)" by (cases "copyMarksH marks h")
      have "sim h1 (inlineLoopH grow rest marks h1) (inlineLoop rest (readSlice h1 marks))"
        if "validSlice h1 marks"
        using "3.IH"(2) [OF False True c [symmetric] that] .
      from step_text [OF "3.prems" c this True, of "textNode literal0" soft hard]
      show ?thesis using False True c lenSlice_read [OF "3.prems"] by simp
    next
      case noMarks: False
      have plain: "list_all (\<lambda>l. snd l = None) ((textNode literal0, None) # breakH soft hard)"
        and fsts: "map fst ((textNode literal0, None) # breakH soft hard) =
          textNode literal0 # (if hard then [hardBreak] else if soft then [textNode '' ''] else [])"
        by (simp_all add: breakH_def)
      from step_plain [OF "3.IH"(3) [OF False noMarks "3.prems"] plain]
      have "sim h (consH ((textNode literal0, None) # breakH soft hard)
          (inlineLoopH grow rest marks h))
        (appendP (Inr (textNode literal0
            # (if hard then [hardBreak] else if soft then [textNode '' ''] else [])))
          (inlineLoop rest (readSlice h marks)))"
        unfolding fsts .
      then show ?thesis using False noMarks lenSlice_read [OF "3.prems"] by simp
    qed
  qed
next
  case (4 grow level cs rest marks h)
  let ?x = "simpleMark (if level = 2 then ''strong'' else ''em'')"
  obtain nm h2 where e: "extendH grow marks ?x h = (nm, h2)" by (cases "extendH grow marks ?x h")
  have ih2: "sim h3 (inlineLoopH grow rest marks h3) (inlineLoop rest (readSlice h3 marks))"
    if "convertInlineChildrenH grow cs nm h2 = Inr (ls, h3)" "validSlice h3 marks" for ls h3
    using "4.IH"(2) [OF e [symmetric] that(1) refl that(2)] .
  from step_nested [OF "4.prems" e "4.IH"(1) [OF e [symmetric]] ih2]
  show ?case using e by (simp del: convertInlineChildrenH.simps convertInlineChildren.simps)
next
  case (5 grow literal0 cs rest marks h)
  obtain nm h2 where e: "extendH grow marks (simpleMark ''code'') h = (nm, h2)"
    by (cases "extendH grow marks (simpleMark ''code'') h")
  from step_marked_leaf [OF "5.prems" e "5.IH" [OF e [symmetric]], of "textNode literal0"]
  show ?case using e by simp
next
  case (6 grow destination cs rest marks h)
  let ?x = "linkMark destination"
  obtain nm h2 where e: "extendH grow marks ?x h = (nm, h2)" by (cases "extendH grow marks ?x h")
  have ih2: "sim h3 (inlineLoopH grow rest marks h3) (inlineLoop rest (readSlice h3 marks))"
    if "convertInlineChildrenH grow cs nm h2 = Inr (ls, h3)" "validSlice h3 marks" for ls h3
    using "6.IH"(2) [OF e [symmetric] that(1) refl that(2)] .
  from step_nested [OF "6.prems" e "6.IH"(1) [OF e [symmetric]] ih2]
  show ?case using e by (simp del: convertInlineChildrenH.simps convertInlineChildren.simps)
next
  case (7 grow t url cs rest marks h)
  from step_plain [OF "7.IH" [OF "7.prems"], of "[(inlineCard url, None)]"]
  show ?case by simp
next
  case (8 grow literal0 destination cs rest marks h)
  obtain nm h2 where e: "extendH grow marks (linkMark destination) h = (nm, h2)"
    by (cases "extendH grow marks (linkMark destination) h")
  from step_marked_leaf [OF "8.prems" e "8.IH" [OF e [symmetric]],
      of "textNode (if literal0 = [] then destination else literal0)"]
  show ?case using e by (simp add: textNode_def)
next
  case (9 grow cs rest marks h)
  let ?x = "simpleMark ''strike''"
  obtain nm h2 where e: "extendH grow marks ?x h = (nm, h2)" by (cases "extendH grow marks ?x h")
  have ih2: "sim h3 (inlineLoopH grow rest marks h3) (inlineLoop rest (readSlice h3 marks))"
    if "convertInlineChildrenH grow cs nm h2 = Inr (ls, h3)" "validSlice h3 marks" for ls h3
    using "9.IH"(2) [OF e [symmetric] that(1) refl that(2)] .
  from step_nested [OF "9.prems" e "9.IH"(1) [OF e [symmetric]] ih2]
  show ?case using e by (simp del: convertInlineChildrenH.simps convertInlineChildren.simps)
next
  case (10 grow cs rest marks h)
  then show ?case by simp
qed (simp_all only: inlineLoopH.simps inlineLoop.simps, (rule step_default; blast)+)

text \<open>
  Claim C4. A branch that extends the mark context works on its own copy: whatever the
  capacity of the caller's slice and of the copies, a call of the inline converter leaves
  every backing array that existed before it unchanged (the caller's mark list, and the
  marks held by the leaves that earlier sibling branches produced), and the leaves it
  returns carry, read through the store, the marks the value model gives them: the
  caller's marks followed by the branch's own. In particular \<^verbatim>\<open>*a **b** c*\<close> gives three
  text leaves with marks [em], [em, strong], [em], and the paragraph after it has none.
\<close>

theorem marks_copied_per_branch:
  "(validSlice h marks \<and> list_all isMark (readSlice h marks) \<longrightarrow>
      (\<exists>ls h'. convertInlineChildrenH grow cs marks h = Inr (ls, h') \<and>
         extends h h' \<and>
         readSlice h' marks = readSlice h marks \<and>
         (list_all (validNode h) earlier \<longrightarrow> map (deref h') earlier = map (deref h) earlier) \<and>
         convertInlineChildren cs (readSlice h marks) = Inr (map (deref h') ls))) \<and>
   convertChildren
     [Ast KParagraph
        [Ast (KEmphasis 1)
           [Ast (KText ''a '' False False) [],
            Ast (KEmphasis 2) [Ast (KText ''b'' False False) []],
            Ast (KText '' c'' False False) []]],
      Ast KParagraph [Ast (KText ''d'' False False) []]] =
     Inr [[(''type'', AString ''paragraph''),
           (''content'', ANodes
              [textLeaf ''a '' [simpleMark ''em''],
               textLeaf ''b'' [simpleMark ''em'', simpleMark ''strong''],
               textLeaf '' c'' [simpleMark ''em'']])],
          [(''type'', AString ''paragraph''), (''content'', ANodes [textLeaf ''d'' []])]]"
proof (intro conjI impI)
  assume a: "validSlice h marks \<and> list_all isMark (readSlice h marks)"
  then have v: "validSlice h marks" and m: "list_all isMark (readSlice h marks)" by simp_all
  from inline_leaves(1) [OF m, of cs] obtain r where
    pure: "convertInlineChildren cs (readSlice h marks) = Inr r"
    using okLeaves_returns by blast
  from inline_sim(1) [OF v, of grow cs] pure obtain ls h' where
    run: "convertInlineChildrenH grow cs marks h = Inr (ls, h')"
    and ext: "extends h h'" and r: "r = map (deref h') ls"
    by (cases "convertInlineChildrenH grow cs marks h") (auto simp: sim_def)
  from validSlice_extends [OF v ext] have "readSlice h' marks = readSlice h marks" by simp
  moreover have "map (deref h') earlier = map (deref h) earlier"
    if "list_all (validNode h) earlier"
    using validNodes_extends [OF that ext] by simp
  ultimately
  show "\<exists>ls h'. convertInlineChildrenH grow cs marks h = Inr (ls, h') \<and>
         extends h h' \<and>
         readSlice h' marks = readSlice h marks \<and>
         (list_all (validNode h) earlier \<longrightarrow> map (deref h') earlier = map (deref h) earlier) \<and>
         convertInlineChildren cs (readSlice h marks) = Inr (map (deref h') ls)"
    using run ext pure r by (auto simp del: convertInlineChildren.simps)
next
  show "convertChildren
     [Ast KParagraph
        [Ast (KEmphasis 1)
           [Ast (KText ''a '' False False) [],
            Ast (KEmphasis 2) [Ast (KText ''b'' False False) []],
            Ast (KText '' c'' False False) []]],
      Ast KParagraph [Ast (KText ''d'' False False) []]] =
     Inr [[(''type'', AString ''paragraph''),
           (''content'', ANodes
              [textLeaf ''a '' [simpleMark ''em''],
               textLeaf ''b'' [simpleMark ''em'', simpleMark ''strong''],
               textLeaf '' c'' [simpleMark ''em'']])],
          [(''type'', AString ''paragraph''), (''content'', ANodes [textLeaf ''d'' []])]]"
    by (simp add: paragraphNode_def thenMerge_def textLeaf_def textNode_def simpleMark_def
        mergeable_def isType_def marksEqual_def marksOf_def printMap_def)
qed

text \<open>
  What the copy prevents: appending in place to a slice with spare capacity overwrites the
  slot that another slice on the same array already uses.
\<close>

lemma append_in_place_is_shared:
  "appendH grow (Slice 0 1) (simpleMark ''strong'') [[simpleMark ''em'', simpleMark ''strike'']] =
     (Slice 0 2, [[simpleMark ''em'', simpleMark ''strong'']])"
  by (simp add: appendH_def)

theorem marks_copied_per_branch_witness:
  "validSlice [[simpleMark ''em'', []]] (Slice 0 1) \<and>
   list_all isMark (readSlice [[simpleMark ''em'', []]] (Slice 0 1)) \<and>
   convertInlineChildrenH (\<lambda>n. 2 * n + 2)
     [Ast (KEmphasis 2) [Ast (KText ''b'' False False) []], Ast (KText '' c'' False False) []]
     (Slice 0 1) [[simpleMark ''em'', []]] =
     Inr ([(textNode ''b'', Some (Slice 3 2)), (textNode '' c'', Some (Slice 4 1))],
          [[simpleMark ''em'', []],
           [simpleMark ''em''],
           [simpleMark ''em'', simpleMark ''strong'', [], []],
           [simpleMark ''em'', simpleMark ''strong''],
           [simpleMark ''em'']]) \<and>
   convertInlineChildren
     [Ast (KEmphasis 2) [Ast (KText ''b'' False False) []], Ast (KText '' c'' False False) []]
     [simpleMark ''em''] =
     Inr [textLeaf ''b'' [simpleMark ''em'', simpleMark ''strong''],
          textLeaf '' c'' [simpleMark ''em'']]"
proof -
  let ?h = "[[simpleMark ''em'', []]]"
  let ?cs = "[Ast (KEmphasis 2) [Ast (KText ''b'' False False) []],
      Ast (KText '' c'' False False) []]"
  have v: "validSlice ?h (Slice 0 1)" by (simp add: validSlice_def)
  have m: "list_all isMark (readSlice ?h (Slice 0 1))" by (simp add: readSlice_def)
  have run: "convertInlineChildrenH (\<lambda>n. 2 * n + 2) ?cs (Slice 0 1) ?h =
     Inr ([(textNode ''b'', Some (Slice 3 2)), (textNode '' c'', Some (Slice 4 1))],
          [[simpleMark ''em'', []],
           [simpleMark ''em''],
           [simpleMark ''em'', simpleMark ''strong'', [], []],
           [simpleMark ''em'', simpleMark ''strong''],
           [simpleMark ''em'']])"
    by (simp add: thenMergeH_def consH_def extendH_def copyMarksH_def appendH_def lenSlice_def
        breakH_def readSlice_def textNode_def simpleMark_def mergeable_def isType_def
        marksEqual_def marksOf_def printMap_def numeral_2_eq_2)
  have rd: "readSlice ?h (Slice 0 1) = [simpleMark ''em'']" by (simp add: readSlice_def)
  have d: "map (deref [[simpleMark ''em'', []],
           [simpleMark ''em''],
           [simpleMark ''em'', simpleMark ''strong'', [], []],
           [simpleMark ''em'', simpleMark ''strong''],
           [simpleMark ''em'']])
        [(textNode ''b'', Some (Slice 3 2)), (textNode '' c'', Some (Slice 4 1))] =
      [textLeaf ''b'' [simpleMark ''em'', simpleMark ''strong''],
       textLeaf '' c'' [simpleMark ''em'']]"
    by (simp add: readSlice_def textLeaf_def textNode_def numeral_2_eq_2 numeral_3_eq_3)
  from marks_copied_per_branch [of ?h "Slice 0 1" "\<lambda>n. 2 * n + 2" ?cs "[]"] v m
  obtain ls h' where
    a: "convertInlineChildrenH (\<lambda>n. 2 * n + 2) ?cs (Slice 0 1) ?h = Inr (ls, h')" and
    b: "convertInlineChildren ?cs (readSlice ?h (Slice 0 1)) = Inr (map (deref h') ls)"
    by blast
  from a [unfolded run] have eq:
    "ls = [(textNode ''b'', Some (Slice 3 2)), (textNode '' c'', Some (Slice 4 1))]"
    "h' = [[simpleMark ''em'', []],
           [simpleMark ''em''],
           [simpleMark ''em'', simpleMark ''strong'', [], []],
           [simpleMark ''em'', simpleMark ''strong''],
           [simpleMark ''em'']]"
    by simp_all
  from b [unfolded eq d rd] v m run show ?thesis by blast
qed

end
